theory Spec2Isabelle
  imports Main "HOL-Library.Multiset" "HOL-Library.Char_ord" "HOL-Library.List_Lexorder"
begin

section \<open>hash-lock: dependency trees, their resolution and their hashes\<close>

text \<open>
  The development follows the three TypeScript modules of the package:
  \<^item> \<^verbatim>\<open>registry.ts\<close>: \<^verbatim>\<open>fetchPackageMetadata\<close>, \<^verbatim>\<open>getMatchingVersions\<close>;
  \<^item> \<^verbatim>\<open>resolver.ts\<close>: the metadata cache, \<^verbatim>\<open>resolveDependencyTree\<close> and the
    generators \<^verbatim>\<open>generateAllPossibleTrees\<close>, \<^verbatim>\<open>exploreTree\<close>,
    \<^verbatim>\<open>generateDependencyCombinations\<close>;
  \<^item> \<^verbatim>\<open>hasher.ts\<close> and \<^verbatim>\<open>index.ts\<close>: \<^verbatim>\<open>serializeTree\<close>, \<^verbatim>\<open>hashTree\<close>,
    \<^verbatim>\<open>findTreeByHash\<close>, \<^verbatim>\<open>resolveAndHash\<close>.

  What lies outside the package is a parameter: the HTTP registry, the \<^verbatim>\<open>semver\<close> library
  (\<^verbatim>\<open>satisfies\<close>, \<^verbatim>\<open>rcompare\<close>), \<^verbatim>\<open>String.prototype.localeCompare\<close> and the digest of
  \<^verbatim>\<open>node:crypto\<close>.
\<close>

subsection \<open>JavaScript containers\<close>

text \<open>
  A JavaScript \<^verbatim>\<open>Map\<close> iterates in insertion order and holds each key once, and
  \<^verbatim>\<open>Object.entries\<close> of a record lists its keys in their enumeration order: both are
  association lists. \<^verbatim>\<open>Map.prototype.set\<close> replaces the value of a key that is present, in
  place, and appends a new key at the end.
\<close>

fun map_set :: "('k \<times> 'v) list \<Rightarrow> 'k \<Rightarrow> 'v \<Rightarrow> ('k \<times> 'v) list" where
  "map_set [] k v = [(k, v)]"
| "map_set ((k', v') # m) k v = (if k' = k then (k, v) # m else (k', v') # map_set m k v)"

text \<open>
  \<^verbatim>\<open>Array.prototype.sort(cmp)\<close> is stable; \<^verbatim>\<open>cmp a b \<le> 0\<close> keeps \<open>a\<close> in front of \<open>b\<close>.
  For a consistent comparator every stable sort returns the list that this insertion sort
  returns.
\<close>

fun insert_sorted :: "('a \<Rightarrow> 'a \<Rightarrow> int) \<Rightarrow> 'a \<Rightarrow> 'a list \<Rightarrow> 'a list" where
  "insert_sorted cmp x [] = [x]"
| "insert_sorted cmp x (y # ys) =
     (if cmp x y \<le> 0 then x # y # ys else y # insert_sorted cmp x ys)"

definition array_sort :: "('a \<Rightarrow> 'a \<Rightarrow> int) \<Rightarrow> 'a list \<Rightarrow> 'a list" where
  "array_sort cmp xs = foldr (insert_sorted cmp) xs []"

text \<open>The comparator \<^verbatim>\<open>([a], [b]) => a.localeCompare(b)\<close> on map entries.\<close>

definition by_key :: "(string \<Rightarrow> string \<Rightarrow> int) \<Rightarrow> string \<times> 'v \<Rightarrow> string \<times> 'v \<Rightarrow> int" where
  "by_key lc = (\<lambda>(a, _) (b, _). lc a b)"

text \<open>\<^verbatim>\<open>Array.prototype.join\<close>.\<close>

fun join :: "string \<Rightarrow> string list \<Rightarrow> string" where
  "join sep [] = []"
| "join sep [p] = p"
| "join sep (p # q # ps) = p @ sep @ join sep (q # ps)"

subsection \<open>Data model\<close>

text \<open>\<^verbatim>\<open>interface DependencyNode { name; version; dependencies: Map<string, DependencyNode> }\<close>\<close>

datatype DependencyNode =
  DependencyNode (name: string) (version: string) (dependencies: "(string \<times> DependencyNode) list")

text \<open>
  \<^verbatim>\<open>PackageVersion\<close> and \<^verbatim>\<open>PackageMetadata\<close> of \<^verbatim>\<open>registry.ts\<close>. The fields
  \<^verbatim>\<open>devDependencies\<close>, \<^verbatim>\<open>peerDependencies\<close>, \<^verbatim>\<open>optionalDependencies\<close> and
  \<^verbatim>\<open>dist-tags\<close> are never read and are left out. \<^verbatim>\<open>dependencies\<close> is optional.
\<close>

record PackageVersion =
  pvName :: string
  pvVersion :: string
  pvDependencies :: "(string \<times> string) list option"

record PackageMetadata =
  mdName :: string
  versions :: "(string \<times> PackageVersion) list"

text \<open>Every failure of the package is a JavaScript \<^verbatim>\<open>Error\<close> carrying a message.\<close>

datatype error = Error string

text \<open>
  The collaborators: \<open>registry\<close> is the answer of the HTTP registry for a package name
  (\<open>None\<close> when the response is not OK), \<open>satisfies\<close> and \<open>rcompare\<close> are those of
  \<^verbatim>\<open>semver\<close>.
\<close>

record env =
  registry :: "string \<Rightarrow> PackageMetadata option"
  satisfies :: "string \<Rightarrow> string \<Rightarrow> bool"
  rcompare :: "string \<Rightarrow> string \<Rightarrow> int"

text \<open>
  The mutable state: the module-level \<^verbatim>\<open>metadataCache\<close>, the cell \<^verbatim>\<open>treeCount.count\<close> that
  an \<^verbatim>\<open>ExploreContext\<close> refers to, and the log of the requests sent to the registry.
\<close>

record world =
  metadataCache :: "(string \<times> PackageMetadata) list"
  treeCount :: nat
  fetched :: "string list"

record ResolverOptions =
  optMaxDepth :: "int option"

datatype algorithm = Sha256 | Sha512

record FindTreeByHashOptions = ResolverOptions +
  optAlgorithm :: "algorithm option"
  optMaxTrees :: "int option"

record FindTreeByHashResult =
  tree :: DependencyNode
  hash :: string
  treesExplored :: nat

text \<open>\<^verbatim>\<open>interface ExploreContext\<close>; its \<^verbatim>\<open>treeCount\<close> is the cell of \<^typ>\<open>world\<close>.\<close>

record ExploreContext =
  depth :: nat
  resolving :: "string set"
  maxDepth :: int
  maxTrees :: int

subsection \<open>hasher.ts\<close>

lemma set_insert_sorted [simp]: "set (insert_sorted cmp x ys) = insert x (set ys)"
  by (induction ys) auto

lemma set_array_sort [simp]: "set (array_sort cmp xs) = set xs"
  by (induction xs) (auto simp: array_sort_def)

lemma size_dependency [termination_simp]:
  "(k, dep) \<in> set (dependencies n) \<Longrightarrow> size dep < size n"
  by (cases n)
     (auto simp: less_Suc_eq_le
           dest!: size_list_estimation'[where f = "size_prod (\<lambda>_. 0) size" and y = "size dep"])

text \<open>
  The inner function \<^verbatim>\<open>serialize(n, indent)\<close> of \<^verbatim>\<open>serializeTree\<close>; the array \<^verbatim>\<open>parts\<close> it
  pushes to is passed through.
\<close>

fun serialize ::
    "(string \<Rightarrow> string \<Rightarrow> int) \<Rightarrow> DependencyNode \<Rightarrow> nat \<Rightarrow> string list \<Rightarrow> string list" where
  "serialize lc n indent parts =
     foldl (\<lambda>parts (k, dep). serialize lc dep (indent + 1) parts)
       (parts @ [concat (replicate indent ''  '') @ name n @ ''@'' @ version n])
       (array_sort (by_key lc) (dependencies n))"

definition serializeTree :: "(string \<Rightarrow> string \<Rightarrow> int) \<Rightarrow> DependencyNode \<Rightarrow> string" where
  "serializeTree lc node = join [CHR 0x0A] (serialize lc node 0 [])"

text \<open>\<open>createHash alg s\<close> stands for \<^verbatim>\<open>createHash(alg).update(s).digest('hex')\<close>.\<close>

definition hashTree ::
    "(algorithm \<Rightarrow> string \<Rightarrow> string) \<Rightarrow> (string \<Rightarrow> string \<Rightarrow> int) \<Rightarrow> DependencyNode \<Rightarrow> algorithm
       \<Rightarrow> string" where
  "hashTree createHash lc node alg = createHash alg (serializeTree lc node)"

subsection \<open>registry.ts and the metadata cache\<close>

definition createEmptyNode :: "string \<Rightarrow> string \<Rightarrow> DependencyNode" where
  "createEmptyNode nm ver = DependencyNode nm ver []"

text \<open>The message of the source also carries the HTTP status, which is not modelled.\<close>

definition fetchPackageMetadata :: "env \<Rightarrow> string \<Rightarrow> error + PackageMetadata" where
  "fetchPackageMetadata e packageName =
     (case registry e packageName of
        None \<Rightarrow> Inl (Error (''Failed to fetch '' @ packageName))
      | Some metadata \<Rightarrow> Inr metadata)"

definition getCachedMetadata ::
    "env \<Rightarrow> string \<Rightarrow> world \<Rightarrow> (error + PackageMetadata) \<times> world" where
  "getCachedMetadata e packageName w =
     (case map_of (metadataCache w) packageName of
        Some metadata \<Rightarrow> (Inr metadata, w)
      | None \<Rightarrow>
          (case fetchPackageMetadata e packageName of
             Inl err \<Rightarrow> (Inl err, w\<lparr>fetched := fetched w @ [packageName]\<rparr>)
           | Inr metadata \<Rightarrow>
               (Inr metadata,
                w\<lparr>fetched := fetched w @ [packageName],
                  metadataCache := map_set (metadataCache w) packageName metadata\<rparr>)))"

definition getDependencies :: "PackageVersion \<Rightarrow> (string \<times> string) list" where
  "getDependencies versionData =
     (case pvDependencies versionData of None \<Rightarrow> [] | Some deps \<Rightarrow> deps)"

text \<open>
  The property read \<^verbatim>\<open>metadata.versions[version]\<close>. The object comes from \<^verbatim>\<open>JSON.parse\<close> and
  inherits from \<^verbatim>\<open>Object.prototype\<close>: for a name that is not an own key the read finds the
  inherited member of that name, if there is one. Every inherited member is truthy (a
  function, or \<^verbatim>\<open>Object.prototype\<close> itself for \<^verbatim>\<open>__proto__\<close>) and has no property
  \<^verbatim>\<open>dependencies\<close>; nothing else of it is read, and \<open>inheritedMember\<close> stands for it.
\<close>

definition objectPrototypeMembers :: "string list" where
  "objectPrototypeMembers =
     [''constructor'', ''__defineGetter__'', ''__defineSetter__'', ''hasOwnProperty'',
      ''__lookupGetter__'', ''__lookupSetter__'', ''isPrototypeOf'', ''propertyIsEnumerable'',
      ''toString'', ''valueOf'', ''__proto__'', ''toLocaleString'']"

definition inheritedMember :: PackageVersion where
  "inheritedMember = \<lparr>pvName = [], pvVersion = [], pvDependencies = None\<rparr>"

definition versionsGet :: "PackageMetadata \<Rightarrow> string \<Rightarrow> PackageVersion option" where
  "versionsGet metadata ver =
     (case map_of (versions metadata) ver of
        Some versionData \<Rightarrow> Some versionData
      | None \<Rightarrow> if ver \<in> set objectPrototypeMembers then Some inheritedMember else None)"

definition getMatchingVersions :: "env \<Rightarrow> PackageMetadata \<Rightarrow> string \<Rightarrow> string list" where
  "getMatchingVersions e metadata versionRange =
     array_sort (rcompare e)
       (filter (\<lambda>v. satisfies e v versionRange) (map fst (versions metadata)))"

subsection \<open>resolver.ts: the greedy resolver\<close>

definition resolutionKey :: "string \<Rightarrow> string \<Rightarrow> string" where
  "resolutionKey nm ver = nm @ ''@'' @ ver"

text \<open>The number of levels left below depth \<open>d\<close> before \<^verbatim>\<open>depth > maxDepth\<close> holds.\<close>

definition depthBudget :: "int \<Rightarrow> nat \<Rightarrow> nat" where
  "depthBudget m d = nat (m + 1 - int d)"

text \<open>
  \<^verbatim>\<open>resolveDependencyTree\<close>, and its loop over \<^verbatim>\<open>Object.entries(allDeps)\<close> as
  \<open>resolveDeps\<close>. The set \<^verbatim>\<open>resolving\<close> is the caller's own copy: the key added on entry is
  deleted in the \<^verbatim>\<open>finally\<close> block, and every recursive call receives \<^verbatim>\<open>new Set(resolving)\<close>.
  The \<^verbatim>\<open>catch\<close> of the loop body logs a warning and goes on with the next entry.
\<close>

function resolveDependencyTree ::
    "env \<Rightarrow> string \<Rightarrow> string \<Rightarrow> ResolverOptions \<Rightarrow> nat \<Rightarrow> string set \<Rightarrow> world
       \<Rightarrow> (error + DependencyNode) \<times> world"
  and resolveDeps ::
    "env \<Rightarrow> ResolverOptions \<Rightarrow> nat \<Rightarrow> string set \<Rightarrow> (string \<times> string) list
       \<Rightarrow> (string \<times> DependencyNode) list \<Rightarrow> world
       \<Rightarrow> (string \<times> DependencyNode) list \<times> world"
where
  "resolveDependencyTree e packageName ver options dpth rslv w =
     (if int dpth > (case optMaxDepth options of None \<Rightarrow> 10 | Some m \<Rightarrow> m)
         \<or> resolutionKey packageName ver \<in> rslv
      then (Inr (createEmptyNode packageName ver), w)
      else
        (case getCachedMetadata e packageName w of
           (Inl err, w1) \<Rightarrow> (Inl err, w1)
         | (Inr metadata, w1) \<Rightarrow>
             (case versionsGet metadata ver of
                None \<Rightarrow>
                  (Inl (Error (''Version '' @ ver @ '' not found for package '' @ packageName)), w1)
              | Some versionData \<Rightarrow>
                  (case resolveDeps e options dpth (insert (resolutionKey packageName ver) rslv)
                          (getDependencies versionData) [] w1 of
                     (resolvedDeps, w2) \<Rightarrow>
                       (Inr (DependencyNode packageName ver resolvedDeps), w2)))))"
| "resolveDeps e options dpth rslv [] resolvedDeps w = (resolvedDeps, w)"
| "resolveDeps e options dpth rslv ((depName, depRange) # rest) resolvedDeps w =
     (case getCachedMetadata e depName w of
        (Inl err, w1) \<Rightarrow> resolveDeps e options dpth rslv rest resolvedDeps w1
      | (Inr depMetadata, w1) \<Rightarrow>
          (case getMatchingVersions e depMetadata depRange of
             [] \<Rightarrow> resolveDeps e options dpth rslv rest resolvedDeps w1
           | v # _ \<Rightarrow>
               (case resolveDependencyTree e depName v options (dpth + 1) rslv w1 of
                  (Inl err, w2) \<Rightarrow> resolveDeps e options dpth rslv rest resolvedDeps w2
                | (Inr resolvedDep, w2) \<Rightarrow>
                    resolveDeps e options dpth rslv rest
                      (map_set resolvedDeps depName resolvedDep) w2)))"
  by pat_completeness auto

termination
  apply (relation "inv_image (less_than <*lex*> less_than)
    (\<lambda>x. case x of
       Inl (e, packageName, ver, options, dpth, rslv, w) \<Rightarrow>
         (2 * depthBudget (case optMaxDepth options of None \<Rightarrow> 10 | Some m \<Rightarrow> m) dpth, 0)
     | Inr (e, options, dpth, rslv, deps, resolvedDeps, w) \<Rightarrow>
         (2 * depthBudget (case optMaxDepth options of None \<Rightarrow> 10 | Some m \<Rightarrow> m) (dpth + 1) + 1,
          length deps))")
  apply (auto simp: depthBudget_def split: option.splits)
  done

subsection \<open>resolver.ts: the generators\<close>

text \<open>
  An async generator that has been started is either finished, has thrown, or is suspended
  at a \<^verbatim>\<open>yield\<close> with a value; a suspended generator is resumed by \<^verbatim>\<open>next()\<close> in the state
  the consumer has reached by then. A consumer that leaves its \<^verbatim>\<open>for await\<close> loop drops the
  resumption: the \<^verbatim>\<open>finally\<close> blocks that \<^verbatim>\<open>return()\<close> runs only delete a key from a set
  nobody reads again.
\<close>

datatype 'a gen = Done world | Throw error world | Yield 'a world "world \<Rightarrow> 'a gen"

text \<open>\<open>genAppend g f\<close>: run \<open>g\<close> to its end, passing its values on, then go on with \<open>f\<close>.\<close>

primrec genAppend :: "'a gen \<Rightarrow> (world \<Rightarrow> 'a gen) \<Rightarrow> 'a gen" where
  "genAppend (Done w) f = f w"
| "genAppend (Throw err w) f = Throw err w"
| "genAppend (Yield x w k) f = Yield x w (\<lambda>w'. genAppend (k w') f)"

text \<open>
  \<open>genCatch g h\<close>: \<^verbatim>\<open>try { g } catch (error) { h }\<close> inside a generator. What the consumer
  does between two values is not inside the \<^verbatim>\<open>try\<close>.
\<close>

primrec genCatch :: "'a gen \<Rightarrow> (world \<Rightarrow> 'a gen) \<Rightarrow> 'a gen" where
  "genCatch (Done w) h = Done w"
| "genCatch (Throw err w) h = h w"
| "genCatch (Yield x w k) h = Yield x w (\<lambda>w'. genCatch (k w') h)"

text \<open>\<open>genMap f g\<close>: \<^verbatim>\<open>for await (const x of g) { yield f(x) }\<close>.\<close>

primrec genMap :: "('a \<Rightarrow> 'b) \<Rightarrow> 'a gen \<Rightarrow> 'b gen" where
  "genMap f (Done w) = Done w"
| "genMap f (Throw err w) = Throw err w"
| "genMap f (Yield x w k) = Yield (f x) w (\<lambda>w'. genMap f (k w'))"

text \<open>\<open>genFlatMap g f\<close>: \<^verbatim>\<open>for await (const x of g) { yield* f(x) }\<close>.\<close>

primrec genFlatMap :: "'a gen \<Rightarrow> ('a \<Rightarrow> world \<Rightarrow> 'b gen) \<Rightarrow> 'b gen" where
  "genFlatMap (Done w) f = Done w"
| "genFlatMap (Throw err w) f = Throw err w"
| "genFlatMap (Yield x w k) f = genAppend (f x w) (\<lambda>w'. genFlatMap (k w') f)"

text \<open>
  The loop of \<^verbatim>\<open>exploreTree\<close> over the combinations:
  \<^verbatim>\<open>if (treeCount.count >= maxTrees) break; if (depth === 0) treeCount.count++; yield {...}\<close>.
\<close>

primrec exploreLoop ::
    "string \<Rightarrow> string \<Rightarrow> ExploreContext \<Rightarrow> (string \<times> DependencyNode) list gen
       \<Rightarrow> DependencyNode gen" where
  "exploreLoop pkgName pkgVersion ctx (Done w) = Done w"
| "exploreLoop pkgName pkgVersion ctx (Throw err w) = Throw err w"
| "exploreLoop pkgName pkgVersion ctx (Yield depsCombination w k) =
     (if int (treeCount w) \<ge> maxTrees ctx then Done w
      else Yield (DependencyNode pkgName pkgVersion depsCombination)
             (if depth ctx = 0 then w\<lparr>treeCount := treeCount w + 1\<rparr> else w)
             (\<lambda>w'. exploreLoop pkgName pkgVersion ctx (k w')))"

text \<open>
  \<^verbatim>\<open>exploreTree\<close>, \<^verbatim>\<open>generateDependencyCombinations\<close>, and the loop of the latter over
  \<^verbatim>\<open>versionsToExplore\<close> as \<open>exploreVersions\<close>. The context handed to
  \<^verbatim>\<open>generateDependencyCombinations\<close> shares the set to which \<^verbatim>\<open>exploreTree\<close> has added its
  key; \<^verbatim>\<open>newCtx\<close> copies it. A name that \<^verbatim>\<open>allDeps\<close> does not hold has the range
  \<^verbatim>\<open>undefined\<close>, which no version satisfies.
\<close>

function exploreTree ::
    "env \<Rightarrow> string \<Rightarrow> string \<Rightarrow> ExploreContext \<Rightarrow> world \<Rightarrow> DependencyNode gen"
  and generateDependencyCombinations ::
    "env \<Rightarrow> string list \<Rightarrow> (string \<times> string) list \<Rightarrow> ExploreContext \<Rightarrow> world
       \<Rightarrow> (string \<times> DependencyNode) list gen"
  and exploreVersions ::
    "env \<Rightarrow> string \<Rightarrow> string list \<Rightarrow> (string \<times> string) list \<Rightarrow> ExploreContext \<Rightarrow> string list
       \<Rightarrow> world \<Rightarrow> (string \<times> DependencyNode) list gen"
where
  "exploreTree e pkgName pkgVersion ctx w =
     (if int (depth ctx) > maxDepth ctx \<or> int (treeCount w) \<ge> maxTrees ctx
         \<or> resolutionKey pkgName pkgVersion \<in> resolving ctx
      then Yield (createEmptyNode pkgName pkgVersion) w Done
      else
        (case getCachedMetadata e pkgName w of
           (Inl err, w1) \<Rightarrow> Throw err w1
         | (Inr metadata, w1) \<Rightarrow>
             (case versionsGet metadata pkgVersion of
                None \<Rightarrow> Yield (createEmptyNode pkgName pkgVersion) w1 Done
              | Some versionData \<Rightarrow>
                  (if map fst (getDependencies versionData) = []
                   then Yield (createEmptyNode pkgName pkgVersion) w1 Done
                   else exploreLoop pkgName pkgVersion ctx
                          (generateDependencyCombinations e
                             (map fst (getDependencies versionData))
                             (getDependencies versionData)
                             (ctx\<lparr>resolving :=
                                    insert (resolutionKey pkgName pkgVersion) (resolving ctx)\<rparr>)
                             w1)))))"
| "generateDependencyCombinations e [] allDeps ctx w = Yield [] w Done"
| "generateDependencyCombinations e (currentDep # remainingDeps) allDeps ctx w =
     genCatch
       (case getCachedMetadata e currentDep w of
          (Inl err, w1) \<Rightarrow> Throw err w1
        | (Inr depMetadata, w1) \<Rightarrow>
            (if take 3 (case map_of allDeps currentDep of None \<Rightarrow> []
                        | Some depRange \<Rightarrow> getMatchingVersions e depMetadata depRange) = []
             then generateDependencyCombinations e remainingDeps allDeps ctx w1
             else exploreVersions e currentDep remainingDeps allDeps ctx
                    (take 3 (case map_of allDeps currentDep of None \<Rightarrow> []
                             | Some depRange \<Rightarrow> getMatchingVersions e depMetadata depRange))
                    w1))
       (\<lambda>w'. generateDependencyCombinations e remainingDeps allDeps ctx w')"
| "exploreVersions e currentDep remainingDeps allDeps ctx [] w = Done w"
| "exploreVersions e currentDep remainingDeps allDeps ctx (depVersion # moreVersions) w =
     (if int (treeCount w) \<ge> maxTrees ctx then Done w
      else genAppend
             (genFlatMap
                (exploreTree e currentDep depVersion (ctx\<lparr>depth := depth ctx + 1\<rparr>) w)
                (\<lambda>resolvedDep w'.
                   genMap (\<lambda>remainingCombination.
                             map_set remainingCombination currentDep resolvedDep)
                     (generateDependencyCombinations e remainingDeps allDeps ctx w')))
             (\<lambda>w'. exploreVersions e currentDep remainingDeps allDeps ctx moreVersions w'))"
  by pat_completeness auto

termination
  apply (relation "inv_image (less_than <*lex*> less_than <*lex*> less_than)
    (\<lambda>x. case x of
       Inl (e, pkgName, pkgVersion, ctx, w) \<Rightarrow>
         (2 * depthBudget (maxDepth ctx) (depth ctx), 0, 0)
     | Inr (Inl (e, depNames, allDeps, ctx, w)) \<Rightarrow>
         (2 * depthBudget (maxDepth ctx) (depth ctx + 1) + 1, 2 * length depNames, 0)
     | Inr (Inr (e, currentDep, remainingDeps, allDeps, ctx, vs, w)) \<Rightarrow>
         (2 * depthBudget (maxDepth ctx) (depth ctx + 1) + 1, 2 * length remainingDeps + 1,
          length vs))")
  apply (auto simp: depthBudget_def)
  done

text \<open>
  \<^verbatim>\<open>generateAllPossibleTrees(packageName, version, options = {}, maxTrees = 1000)\<close>: a fresh
  counter, depth 0, an empty set.
\<close>

definition generateAllPossibleTrees ::
    "env \<Rightarrow> string \<Rightarrow> string \<Rightarrow> ResolverOptions \<Rightarrow> int option \<Rightarrow> world \<Rightarrow> DependencyNode gen" where
  "generateAllPossibleTrees e packageName ver options maxTreesArg w =
     exploreTree e packageName ver
       \<lparr>depth = 0, resolving = {},
        maxDepth = (case optMaxDepth options of None \<Rightarrow> 10 | Some m \<Rightarrow> m),
        maxTrees = (case maxTreesArg of None \<Rightarrow> 1000 | Some m \<Rightarrow> m)\<rparr>
       (w\<lparr>treeCount := 0\<rparr>)"

subsection \<open>index.ts\<close>

text \<open>The \<^verbatim>\<open>for await\<close> loop of \<^verbatim>\<open>findTreeByHash\<close>, with its counter \<^verbatim>\<open>treesExplored\<close>.\<close>

primrec findTreeLoop ::
    "(algorithm \<Rightarrow> string \<Rightarrow> string) \<Rightarrow> (string \<Rightarrow> string \<Rightarrow> int) \<Rightarrow> algorithm \<Rightarrow> string
       \<Rightarrow> DependencyNode gen \<Rightarrow> nat \<Rightarrow> (error + FindTreeByHashResult option) \<times> world" where
  "findTreeLoop createHash lc alg targetHash (Done w) explored = (Inr None, w)"
| "findTreeLoop createHash lc alg targetHash (Throw err w) explored = (Inl err, w)"
| "findTreeLoop createHash lc alg targetHash (Yield t w k) explored =
     (if hashTree createHash lc t alg = targetHash
      then (Inr (Some \<lparr>tree = t, hash = hashTree createHash lc t alg,
                       treesExplored = explored + 1\<rparr>), w)
      else findTreeLoop createHash lc alg targetHash (k w) (explored + 1))"

definition findTreeByHash ::
    "env \<Rightarrow> (algorithm \<Rightarrow> string \<Rightarrow> string) \<Rightarrow> (string \<Rightarrow> string \<Rightarrow> int) \<Rightarrow> string \<Rightarrow> string
       \<Rightarrow> string \<Rightarrow> FindTreeByHashOptions \<Rightarrow> world
       \<Rightarrow> (error + FindTreeByHashResult option) \<times> world" where
  "findTreeByHash e createHash lc packageName ver targetHash options w =
     findTreeLoop createHash lc (case optAlgorithm options of None \<Rightarrow> Sha256 | Some a \<Rightarrow> a)
       targetHash
       (generateAllPossibleTrees e packageName ver (ResolverOptions.truncate options)
          (Some (case optMaxTrees options of None \<Rightarrow> 1000 | Some m \<Rightarrow> m)) w)
       0"

text \<open>\<^verbatim>\<open>resolveAndHash\<close> asks the generator for one tree; its option \<^verbatim>\<open>maxTrees\<close> is not used.\<close>

definition resolveAndHash ::
    "env \<Rightarrow> (algorithm \<Rightarrow> string \<Rightarrow> string) \<Rightarrow> (string \<Rightarrow> string \<Rightarrow> int) \<Rightarrow> string \<Rightarrow> string
       \<Rightarrow> FindTreeByHashOptions \<Rightarrow> world \<Rightarrow> (error + DependencyNode \<times> string) \<times> world" where
  "resolveAndHash e createHash lc packageName ver options w =
     (case generateAllPossibleTrees e packageName ver (ResolverOptions.truncate options)
             (Some 1) w of
        Yield t w1 k \<Rightarrow>
          (Inr (t, hashTree createHash lc t
                     (case optAlgorithm options of None \<Rightarrow> Sha256 | Some a \<Rightarrow> a)), w1)
      | Throw err w1 \<Rightarrow> (Inl err, w1)
      | Done w1 \<Rightarrow> (Inl (Error (''Failed to resolve '' @ packageName @ ''@'' @ ver)), w1))"

text \<open>
  The consumer of the example script, \<^verbatim>\<open>for await (const tree of g) { ... }\<close>, which reads
  every value: the values in the order of their generation, the error that ended the
  generator if one did, and the last state.
\<close>

primrec drain :: "'a gen \<Rightarrow> 'a list \<times> error option \<times> world" where
  "drain (Done w) = ([], None, w)"
| "drain (Throw err w) = ([], Some err, w)"
| "drain (Yield x w k) = (case drain (k w) of (xs, r) \<Rightarrow> (x # xs, r))"

subsection \<open>Notions used by the statements\<close>

text \<open>
  The listing that the serializer is to produce: the nodes in pre-order with their depth,
  the children of a node in the order in which the sort leaves the entries; one line for
  each.
\<close>

fun preorder ::
    "(string \<Rightarrow> string \<Rightarrow> int) \<Rightarrow> nat \<Rightarrow> DependencyNode \<Rightarrow> (nat \<times> DependencyNode) list" where
  "preorder lc d n =
     (d, n) # concat (map (\<lambda>(k, c). preorder lc (d + 1) c)
                        (array_sort (by_key lc) (dependencies n)))"

definition line_of :: "nat \<times> DependencyNode \<Rightarrow> string" where
  "line_of = (\<lambda>(d, n). concat (replicate d ''  '') @ name n @ ''@'' @ version n)"

fun node_count :: "DependencyNode \<Rightarrow> nat" where
  "node_count n = 1 + sum_list (map (\<lambda>(k, c). node_count c) (dependencies n))"

text \<open>
  Two trees are the same tree when they agree on name and version and their children maps,
  read as mappings from unique keys, hold the same keys with the same subtrees; the order of
  the entries is free.
\<close>

fun same_tree :: "DependencyNode \<Rightarrow> DependencyNode \<Rightarrow> bool" where
  "same_tree a b =
     (name a = name b \<and> version a = version b \<and>
      distinct (map fst (dependencies a)) \<and> distinct (map fst (dependencies b)) \<and>
      fst ` set (dependencies a) = fst ` set (dependencies b) \<and>
      (\<forall>(k, c) \<in> set (dependencies a). \<forall>(k', c') \<in> set (dependencies b).
          k = k' \<longrightarrow> same_tree c c'))"

text \<open>
  What is asked of a comparator: to be consistent; to tell all strings apart; or only, at
  every node of a tree, the keys of the children map.
\<close>

definition total_preorder :: "('a \<Rightarrow> 'a \<Rightarrow> int) \<Rightarrow> bool" where
  "total_preorder cmp \<longleftrightarrow>
     (\<forall>a b. cmp a b \<le> 0 \<or> cmp b a \<le> 0) \<and>
     (\<forall>a b c. cmp a b \<le> 0 \<and> cmp b c \<le> 0 \<longrightarrow> cmp a c \<le> 0)"

definition linear_order :: "('a \<Rightarrow> 'a \<Rightarrow> int) \<Rightarrow> bool" where
  "linear_order cmp \<longleftrightarrow>
     (\<forall>a b. cmp a b \<le> 0 \<or> cmp b a \<le> 0) \<and>
     (\<forall>a b c. cmp a b \<le> 0 \<and> cmp b c \<le> 0 \<longrightarrow> cmp a c \<le> 0) \<and>
     (\<forall>a b. cmp a b \<le> 0 \<and> cmp b a \<le> 0 \<longrightarrow> a = b)"

fun names_separated :: "(string \<Rightarrow> string \<Rightarrow> int) \<Rightarrow> DependencyNode \<Rightarrow> bool" where
  "names_separated lc n =
     ((\<forall>(a, c) \<in> set (dependencies n). \<forall>(b, c') \<in> set (dependencies n).
          lc a b \<le> 0 \<and> lc b a \<le> 0 \<longrightarrow> a = b) \<and>
      (\<forall>(k, c) \<in> set (dependencies n). names_separated lc c))"

text \<open>
  A comparator for the examples: the order of the code units, with which
  \<^verbatim>\<open>localeCompare\<close> agrees on capital ASCII letters.
\<close>

definition codeUnitCompare :: "string \<Rightarrow> string \<Rightarrow> int" where
  "codeUnitCompare a b = (if a < b then - 1 else if a = b then 0 else 1)"

text \<open>
  What \<^verbatim>\<open>getCachedMetadata\<close> answers for a name in a given state: the cached metadata if
  there is any, the registry's otherwise.
\<close>

definition metadataView :: "env \<Rightarrow> world \<Rightarrow> string \<Rightarrow> PackageMetadata option" where
  "metadataView e w nm =
     (case map_of (metadataCache w) nm of Some m \<Rightarrow> Some m | None \<Rightarrow> registry e nm)"

text \<open>
  \<open>cache_inv e V C w\<close>: in the state \<open>w\<close> the view of the metadata is \<open>V\<close> and the cache holds
  every entry of the association list \<open>C\<close>.
\<close>

definition cache_inv ::
    "env \<Rightarrow> (string \<Rightarrow> PackageMetadata option) \<Rightarrow> (string \<times> PackageMetadata) list \<Rightarrow> world \<Rightarrow> bool" where
  "cache_inv e V C w \<longleftrightarrow> metadataView e w = V \<and> map_of C \<subseteq>\<^sub>m map_of (metadataCache w)"

text \<open>
  \<open>yields_ok e b V C P g c\<close>: whenever the generator \<open>g\<close> is resumed in a state that satisfies
  \<open>cache_inv e V C\<close>, it stops or suspends in such a state (and, when \<open>b\<close> holds, with the
  counter it was resumed with; \<open>c\<close> is the counter at the start), and every value it yields
  satisfies \<open>P\<close>.
\<close>

primrec yields_ok ::
    "env \<Rightarrow> bool \<Rightarrow> (string \<Rightarrow> PackageMetadata option) \<Rightarrow> (string \<times> PackageMetadata) list
       \<Rightarrow> ('a \<Rightarrow> bool) \<Rightarrow> 'a gen \<Rightarrow> nat \<Rightarrow> bool" where
  "yields_ok e b V C P (Done w) c = (cache_inv e V C w \<and> (b \<longrightarrow> treeCount w = c))"
| "yields_ok e b V C P (Throw err w) c = (cache_inv e V C w \<and> (b \<longrightarrow> treeCount w = c))"
| "yields_ok e b V C P (Yield x w k) c =
     (cache_inv e V C w \<and> (b \<longrightarrow> treeCount w = c) \<and> P x \<and>
      (\<forall>w'. cache_inv e V C w' \<longrightarrow> yields_ok e b V C P (k w') (treeCount w')))"

text \<open>The number of levels of a tree.\<close>

fun max_list :: "nat list \<Rightarrow> nat" where
  "max_list [] = 0"
| "max_list (x # xs) = max x (max_list xs)"

fun height :: "DependencyNode \<Rightarrow> nat" where
  "height n = 1 + max_list (map (\<lambda>(k, c). height c) (dependencies n))"

text \<open>
  \<open>edges_ok e V pick t\<close>: at every node of \<open>t\<close>, every entry \<open>k \<mapsto> c\<close> of the children map is
  a declared dependency \<open>(k, r)\<close> of the node's version, \<open>c\<close> is named \<open>k\<close>, and its version is
  one that \<open>pick\<close> allows among \<^verbatim>\<open>getMatchingVersions\<close> of \<open>k\<close>'s metadata for \<open>r\<close>.
\<close>

fun edges_ok ::
    "env \<Rightarrow> (string \<Rightarrow> PackageMetadata option) \<Rightarrow> (string list \<Rightarrow> string set) \<Rightarrow> DependencyNode \<Rightarrow> bool" where
  "edges_ok e V pick n =
     (\<forall>(k, c) \<in> set (dependencies n).
        name c = k \<and>
        (\<exists>md vd r mdk.
           V (name n) = Some md \<and> map_of (versions md) (version n) = Some vd \<and>
           (k, r) \<in> set (getDependencies vd) \<and> V k = Some mdk \<and>
           version c \<in> pick (getMatchingVersions e mdk r)) \<and>
        edges_ok e V pick c)"

text \<open>\<^verbatim>\<open>matchingVersions.slice(0, 3)\<close> and \<^verbatim>\<open>matchingVersions[0]\<close>, as sets of choices.\<close>

definition top3 :: "string list \<Rightarrow> string set" where
  "top3 ms = set (take 3 ms)"

definition top1 :: "string list \<Rightarrow> string set" where
  "top1 ms = set (take 1 ms)"

text \<open>The invariants of the trees and of the children maps under construction.\<close>

definition tree_ok ::
    "env \<Rightarrow> (string \<Rightarrow> PackageMetadata option) \<Rightarrow> (string list \<Rightarrow> string set) \<Rightarrow> nat \<Rightarrow> string \<Rightarrow> string
       \<Rightarrow> DependencyNode \<Rightarrow> bool" where
  "tree_ok e V pick h nm ver t \<longleftrightarrow>
     name t = nm \<and> version t = ver \<and> height t \<le> h \<and> edges_ok e V pick t"

definition combo_ok ::
    "env \<Rightarrow> (string \<Rightarrow> PackageMetadata option) \<Rightarrow> (string list \<Rightarrow> string set) \<Rightarrow> nat \<Rightarrow> string list
       \<Rightarrow> (string \<times> string) list \<Rightarrow> (string \<times> DependencyNode) list \<Rightarrow> bool" where
  "combo_ok e V pick h depNames allDeps combo \<longleftrightarrow>
     (\<forall>(k, c) \<in> set combo.
        k \<in> set depNames \<and> name c = k \<and> height c \<le> h \<and> edges_ok e V pick c \<and>
        (\<exists>r mdk. (k, r) \<in> set allDeps \<and> V k = Some mdk \<and>
           version c \<in> pick (getMatchingVersions e mdk r)))"

text \<open>\<^verbatim>\<open>const { maxDepth = 10 } = options\<close>.\<close>

definition effectiveMaxDepth :: "ResolverOptions \<Rightarrow> int" where
  "effectiveMaxDepth options = (case optMaxDepth options of None \<Rightarrow> 10 | Some m \<Rightarrow> m)"

text \<open>How a generator answers the first \<^verbatim>\<open>next()\<close>.\<close>

definition yielding :: "'a gen \<Rightarrow> bool" where
  "yielding g = (case g of Yield x w k \<Rightarrow> True | _ \<Rightarrow> False)"

definition finished :: "'a gen \<Rightarrow> bool" where
  "finished g = (case g of Done w \<Rightarrow> True | _ \<Rightarrow> False)"

subsection \<open>The resolvers as the specification describes them\<close>

text \<open>
  The definitions of this subsection are not taken from the code: they say what the
  specification asks, and the code is compared with them.

  The Version Matcher: the known versions that satisfy the range, highest first.
\<close>

definition spec_matching :: "env \<Rightarrow> PackageMetadata \<Rightarrow> string \<Rightarrow> string list" where
  "spec_matching e md r =
     array_sort (rcompare e) (filter (\<lambda>v. satisfies e v r) (map fst (versions md)))"

text \<open>
  What the specification asks of the tree of a greedy resolution. A node at the depth bound
  or on an open pair is a placeholder, and a node whose version the metadata does not hold
  has no children either. At every other node every declared dependency whose metadata is
  available and whose range has a match has an edge; every edge belongs to a declared
  dependency and leads to the first of the versions matching its range, which satisfies the
  range; and the same holds one level deeper. \<open>V\<close> gives the metadata of a name, if any is to
  be had.
\<close>

definition declared_edges_present ::
    "env \<Rightarrow> (string \<Rightarrow> PackageMetadata option) \<Rightarrow> (string \<times> string) list \<Rightarrow> string set \<Rightarrow> bool" where
  "declared_edges_present e V deps keys \<longleftrightarrow>
     (\<forall>(k, r) \<in> set deps.
         case V k of
           None \<Rightarrow> True
         | Some mdk \<Rightarrow> spec_matching e mdk r \<noteq> [] \<longrightarrow> k \<in> keys)"

definition edge_to_first_match ::
    "env \<Rightarrow> (string \<Rightarrow> PackageMetadata option) \<Rightarrow> (string \<times> string) list \<Rightarrow> string
       \<Rightarrow> DependencyNode \<Rightarrow> bool" where
  "edge_to_first_match e V deps k c \<longleftrightarrow>
     name c = k \<and>
     (\<exists>(k', r) \<in> set deps.
         k' = k \<and>
         (case V k of
            None \<Rightarrow> False
          | Some mdk \<Rightarrow>
              spec_matching e mdk r \<noteq> [] \<and> version c = hd (spec_matching e mdk r) \<and>
              satisfies e (version c) r))"

fun greedy_edges ::
    "env \<Rightarrow> (string \<Rightarrow> PackageMetadata option) \<Rightarrow> int \<Rightarrow> nat \<Rightarrow> string set \<Rightarrow> DependencyNode
       \<Rightarrow> bool" where
  "greedy_edges e V maxD d path t =
     (if int d > maxD \<or> resolutionKey (name t) (version t) \<in> path then dependencies t = []
      else
        (case V (name t) of
           None \<Rightarrow> False
         | Some md \<Rightarrow>
             (case map_of (versions md) (version t) of
                None \<Rightarrow> dependencies t = []
              | Some vd \<Rightarrow>
                  declared_edges_present e V (getDependencies vd) (fst ` set (dependencies t)) \<and>
                  (\<forall>(k, c) \<in> set (dependencies t).
                      edge_to_first_match e V (getDependencies vd) k c \<and>
                      greedy_edges e V maxD (d + 1)
                        (insert (resolutionKey (name t) (version t)) path) c))))"

text \<open>
  The enumeration of the Exhaustive Search Generator as the specification describes it,
  without budget and without state. A node at the depth bound, on an open pair, of an unknown
  version or without declared dependencies gives the placeholder leaf alone; a root without
  metadata gives nothing. Every other node gives one tree per children mapping. The children
  mappings are the cross-product of the alternatives of the declared dependencies, taken in
  declaration order, the first dependency in the outer loop: the alternatives of a dependency
  are, for each of the first three versions matching its range, highest first, the trees of
  that version one level deeper. A dependency without metadata or without a match is dropped.
\<close>

function spec_trees ::
    "env \<Rightarrow> (string \<Rightarrow> PackageMetadata option) \<Rightarrow> int \<Rightarrow> nat \<Rightarrow> string set \<Rightarrow> string \<Rightarrow> string
       \<Rightarrow> DependencyNode list"
  and spec_combinations ::
    "env \<Rightarrow> (string \<Rightarrow> PackageMetadata option) \<Rightarrow> int \<Rightarrow> nat \<Rightarrow> string set \<Rightarrow> string list
       \<Rightarrow> (string \<times> string) list \<Rightarrow> (string \<times> DependencyNode) list list"
where
  "spec_trees e V maxD d path nm ver =
     (if int d > maxD \<or> resolutionKey nm ver \<in> path then [createEmptyNode nm ver]
      else
        (case V nm of
           None \<Rightarrow> []
         | Some md \<Rightarrow>
             (case map_of (versions md) ver of
                None \<Rightarrow> [createEmptyNode nm ver]
              | Some vd \<Rightarrow>
                  (if getDependencies vd = [] then [createEmptyNode nm ver]
                   else map (DependencyNode nm ver)
                          (spec_combinations e V maxD d (insert (resolutionKey nm ver) path)
                             (map fst (getDependencies vd)) (getDependencies vd))))))"
| "spec_combinations e V maxD d path [] allDeps = [[]]"
| "spec_combinations e V maxD d path (k # ks) allDeps =
     (case V k of
        None \<Rightarrow> spec_combinations e V maxD d path ks allDeps
      | Some md \<Rightarrow>
          (case take 3 (case map_of allDeps k of None \<Rightarrow> [] | Some r \<Rightarrow> spec_matching e md r) of
             [] \<Rightarrow> spec_combinations e V maxD d path ks allDeps
           | v # vs \<Rightarrow>
               concat (map (\<lambda>v'.
                 concat (map (\<lambda>t.
                   map (\<lambda>children. map_set children k t)
                     (spec_combinations e V maxD d path ks allDeps))
                   (spec_trees e V maxD (d + 1) path k v')))
                 (v # vs))))"
  by pat_completeness auto

termination
  apply (relation "inv_image (less_than <*lex*> less_than)
    (\<lambda>x. case x of
       Inl (e, V, maxD, d, path, nm, ver) \<Rightarrow> (2 * depthBudget maxD d, 0)
     | Inr (e, V, maxD, d, path, names, allDeps) \<Rightarrow>
         (2 * depthBudget maxD (d + 1) + 1, length names))")
  apply (auto simp: depthBudget_def)
  done

text \<open>
  A generator follows a list as long as budget is left: resumed while the counter is below
  \<^verbatim>\<open>maxTrees\<close>, it yields the next element of the list and does not throw, and it ends when
  the list ends. Once the counter has reached \<^verbatim>\<open>maxTrees\<close> nothing is asked of it.
\<close>

primrec tracks ::
    "env \<Rightarrow> (string \<Rightarrow> PackageMetadata option) \<Rightarrow> (string \<times> PackageMetadata) list \<Rightarrow> int \<Rightarrow> 'a gen
       \<Rightarrow> nat \<Rightarrow> 'a list \<Rightarrow> bool" where
  "tracks e V C m (Done w) c xs = (int c < m \<longrightarrow> xs = [])"
| "tracks e V C m (Throw err w) c xs = (\<not> int c < m)"
| "tracks e V C m (Yield x w k) c xs =
     (int c < m \<longrightarrow>
        (case xs of
           [] \<Rightarrow> False
         | y # rest \<Rightarrow>
             y = x \<and> (\<forall>w'. cache_inv e V C w' \<longrightarrow> tracks e V C m (k w') (treeCount w') rest)))"


subsection \<open>Example data\<close>

text \<open>
  The example registry of the specification: A@1.0.0 declares B with range \<^verbatim>\<open>^1.0.0\<close>, B has
  the versions 1.0.0 and 1.1.0 without dependencies. \<open>fixtureSatisfies\<close> and
  \<open>fixtureRcompare\<close> answer as \<^verbatim>\<open>semver\<close> does on the versions 1.0.0 to 1.3.0 and the range
  \<^verbatim>\<open>^1.0.0\<close>. A second registry gives B four versions, a third one makes A and B depend on
  each other.
\<close>

definition defaultOptions :: ResolverOptions where
  "defaultOptions = \<lparr>optMaxDepth = None\<rparr>"

definition defaultFindOptions :: FindTreeByHashOptions where
  "defaultFindOptions = \<lparr>optMaxDepth = None, optAlgorithm = None, optMaxTrees = None\<rparr>"

definition emptyWorld :: world where
  "emptyWorld = \<lparr>metadataCache = [], treeCount = 0, fetched = []\<rparr>"

definition leafVersion :: "string \<Rightarrow> string \<Rightarrow> string \<times> PackageVersion" where
  "leafVersion nm ver = (ver, \<lparr>pvName = nm, pvVersion = ver, pvDependencies = None\<rparr>)"

definition fixtureMetadataA :: PackageMetadata where
  "fixtureMetadataA =
     \<lparr>mdName = ''A'',
      versions = [(''1.0.0'', \<lparr>pvName = ''A'', pvVersion = ''1.0.0'',
                               pvDependencies = Some [(''B'', ''^1.0.0'')]\<rparr>)]\<rparr>"

definition fixtureMetadataB :: PackageMetadata where
  "fixtureMetadataB =
     \<lparr>mdName = ''B'', versions = [leafVersion ''B'' ''1.0.0'', leafVersion ''B'' ''1.1.0'']\<rparr>"

definition fixtureRegistry :: "string \<Rightarrow> PackageMetadata option" where
  "fixtureRegistry packageName =
     (if packageName = ''A'' then Some fixtureMetadataA
      else if packageName = ''B'' then Some fixtureMetadataB
      else None)"

definition versionRank :: "string \<Rightarrow> int" where
  "versionRank v =
     (if v = ''1.1.0'' then 1 else if v = ''1.2.0'' then 2 else if v = ''1.3.0'' then 3 else 0)"

definition fixtureSatisfies :: "string \<Rightarrow> string \<Rightarrow> bool" where
  "fixtureSatisfies v rng =
     (rng = ''^1.0.0'' \<and> (v = ''1.0.0'' \<or> v = ''1.1.0'' \<or> v = ''1.2.0'' \<or> v = ''1.3.0''))"

definition fixtureRcompare :: "string \<Rightarrow> string \<Rightarrow> int" where
  "fixtureRcompare a b = sgn (versionRank b - versionRank a)"

definition fixture :: env where
  "fixture = \<lparr>registry = fixtureRegistry, satisfies = fixtureSatisfies, rcompare = fixtureRcompare\<rparr>"

definition wideMetadataB :: PackageMetadata where
  "wideMetadataB =
     \<lparr>mdName = ''B'',
      versions = [leafVersion ''B'' ''1.0.0'', leafVersion ''B'' ''1.1.0'',
                  leafVersion ''B'' ''1.2.0'', leafVersion ''B'' ''1.3.0'']\<rparr>"

definition wideFixture :: env where
  "wideFixture =
     \<lparr>registry = (\<lambda>packageName.
         if packageName = ''A'' then Some fixtureMetadataA
         else if packageName = ''B'' then Some wideMetadataB else None),
      satisfies = fixtureSatisfies, rcompare = fixtureRcompare\<rparr>"

definition cyclicFixture :: env where
  "cyclicFixture =
     \<lparr>registry = (\<lambda>packageName.
         if packageName = ''A'' then
           Some \<lparr>mdName = ''A'',
                 versions = [(''1.0.0'', \<lparr>pvName = ''A'', pvVersion = ''1.0.0'',
                                          pvDependencies = Some [(''B'', ''^1.0.0'')]\<rparr>)]\<rparr>
         else if packageName = ''B'' then
           Some \<lparr>mdName = ''B'',
                 versions = [(''1.0.0'', \<lparr>pvName = ''B'', pvVersion = ''1.0.0'',
                                          pvDependencies = Some [(''A'', ''^1.0.0'')]\<rparr>)]\<rparr>
         else None),
      satisfies = fixtureSatisfies, rcompare = fixtureRcompare\<rparr>"

text \<open>
  A registry with more to choose from. A@1.0.0 declares B with range \<^verbatim>\<open>~1.0.0\<close>, X and C with
  range \<^verbatim>\<open>^1.0.0\<close>; B has the versions 1.0.0, 1.1.0 and 1.0.5, of which 1.1.0 does not
  satisfy \<^verbatim>\<open>~1.0.0\<close>; the registry has no X; C@1.0.0 declares D with range \<^verbatim>\<open>^1.0.0\<close>; D has the
  versions 1.0.0 and 1.1.0. \<open>deepSatisfies\<close> and \<open>deepRcompare\<close> answer as \<^verbatim>\<open>semver\<close> does on
  these versions and ranges. The greedy resolver inserts B before C, the generator C before
  B.
\<close>

definition deepRank :: "string \<Rightarrow> int" where
  "deepRank v = (if v = ''1.0.5'' then 1 else if v = ''1.1.0'' then 2 else 0)"

definition deepSatisfies :: "string \<Rightarrow> string \<Rightarrow> bool" where
  "deepSatisfies v rng =
     ((rng = ''^1.0.0'' \<and> (v = ''1.0.0'' \<or> v = ''1.0.5'' \<or> v = ''1.1.0'')) \<or>
      (rng = ''~1.0.0'' \<and> (v = ''1.0.0'' \<or> v = ''1.0.5'')))"

definition deepRcompare :: "string \<Rightarrow> string \<Rightarrow> int" where
  "deepRcompare a b = sgn (deepRank b - deepRank a)"

definition deepMetadataA :: PackageMetadata where
  "deepMetadataA =
     \<lparr>mdName = ''A'',
      versions = [(''1.0.0'', \<lparr>pvName = ''A'', pvVersion = ''1.0.0'',
                               pvDependencies = Some [(''B'', ''~1.0.0''), (''X'', ''^1.0.0''),
                                                      (''C'', ''^1.0.0'')]\<rparr>)]\<rparr>"

definition deepMetadataB :: PackageMetadata where
  "deepMetadataB =
     \<lparr>mdName = ''B'',
      versions = [leafVersion ''B'' ''1.0.0'', leafVersion ''B'' ''1.1.0'',
                  leafVersion ''B'' ''1.0.5'']\<rparr>"

definition deepMetadataC :: PackageMetadata where
  "deepMetadataC =
     \<lparr>mdName = ''C'',
      versions = [(''1.0.0'', \<lparr>pvName = ''C'', pvVersion = ''1.0.0'',
                               pvDependencies = Some [(''D'', ''^1.0.0'')]\<rparr>)]\<rparr>"

definition deepMetadataD :: PackageMetadata where
  "deepMetadataD =
     \<lparr>mdName = ''D'', versions = [leafVersion ''D'' ''1.0.0'', leafVersion ''D'' ''1.1.0'']\<rparr>"

definition deepRegistry :: "string \<Rightarrow> PackageMetadata option" where
  "deepRegistry packageName =
     (if packageName = ''A'' then Some deepMetadataA
      else if packageName = ''B'' then Some deepMetadataB
      else if packageName = ''C'' then Some deepMetadataC
      else if packageName = ''D'' then Some deepMetadataD
      else None)"

definition deepFixture :: env where
  "deepFixture = \<lparr>registry = deepRegistry, satisfies = deepSatisfies, rcompare = deepRcompare\<rparr>"

definition deepGreedyTree :: DependencyNode where
  "deepGreedyTree =
     DependencyNode ''A'' ''1.0.0''
       [(''B'', DependencyNode ''B'' ''1.0.5'' []),
        (''C'', DependencyNode ''C'' ''1.0.0'' [(''D'', DependencyNode ''D'' ''1.1.0'' [])])]"

definition deepTree :: "string \<Rightarrow> string \<Rightarrow> DependencyNode" where
  "deepTree b d =
     DependencyNode ''A'' ''1.0.0''
       [(''C'', DependencyNode ''C'' ''1.0.0'' [(''D'', DependencyNode ''D'' d [])]),
        (''B'', DependencyNode ''B'' b [])]"


definition treeWithB :: "string \<Rightarrow> DependencyNode" where
  "treeWithB ver = DependencyNode ''A'' ''1.0.0'' [(''B'', DependencyNode ''B'' ver [])]"

definition cyclicTree :: DependencyNode where
  "cyclicTree =
     DependencyNode ''A'' ''1.0.0''
       [(''B'', DependencyNode ''B'' ''1.0.0'' [(''A'', DependencyNode ''A'' ''1.0.0'' [])])]"

text \<open>The context with which \<^verbatim>\<open>generateAllPossibleTrees\<close> starts \<^verbatim>\<open>exploreTree\<close>.\<close>

definition rootContext :: "ResolverOptions \<Rightarrow> int option \<Rightarrow> ExploreContext" where
  "rootContext options maxTreesArg =
     \<lparr>depth = 0, resolving = {},
      maxDepth = (case optMaxDepth options of None \<Rightarrow> 10 | Some m \<Rightarrow> m),
      maxTrees = (case maxTreesArg of None \<Rightarrow> 1000 | Some m \<Rightarrow> m)\<rparr>"

text \<open>The state in which a first call of \<^verbatim>\<open>generateAllPossibleTrees\<close> on the fixture ends.\<close>

definition worldAfterFirstCall :: world where
  "worldAfterFirstCall =
     snd (snd (drain (generateAllPossibleTrees fixture ''A'' ''1.0.0'' defaultOptions (Some 10)
                        emptyWorld)))"

text \<open>Example data: one tree whose children map was filled in two orders, and a digest.\<close>

definition witnessTree :: DependencyNode where
  "witnessTree =
     DependencyNode ''A'' ''1.0.0''
       (map_set (map_set [] ''C'' (DependencyNode ''C'' ''2.0.0'' []))
          ''B'' (DependencyNode ''B'' ''1.1.0'' []))"

definition witnessTree' :: DependencyNode where
  "witnessTree' =
     DependencyNode ''A'' ''1.0.0''
       (map_set (map_set [] ''B'' (DependencyNode ''B'' ''1.1.0'' []))
          ''C'' (DependencyNode ''C'' ''2.0.0'' []))"

text \<open>
  Example data: two names that Unicode holds canonically equivalent, written as their UTF-8
  bytes: U+00E9, and U+0065 followed by U+0301. \<^verbatim>\<open>localeCompare\<close> compares by the collation of
  the locale, for which canonically equivalent strings are equal, and answers 0 for the two
  names. \<open>canonicalCompare\<close> stands for it in the example: the order of the code units once
  U+00E9 is decomposed. The tree is built twice, its children map filled in the two orders.
\<close>

definition composedName :: string where
  "composedName = [CHR 0xC3, CHR 0xA9]"

definition decomposedName :: string where
  "decomposedName = [CHR 0x65, CHR 0xCC, CHR 0x81]"

fun decompose :: "string \<Rightarrow> string" where
  "decompose (a # b # s) =
     (if a = CHR 0xC3 \<and> b = CHR 0xA9 then decomposedName @ decompose s
      else a # decompose (b # s))"
| "decompose s = s"

definition canonicalCompare :: "string \<Rightarrow> string \<Rightarrow> int" where
  "canonicalCompare a b = codeUnitCompare (decompose a) (decompose b)"

definition accentTree :: DependencyNode where
  "accentTree =
     DependencyNode ''A'' ''1.0.0''
       (map_set (map_set [] composedName (DependencyNode composedName ''1.0.0'' []))
          decomposedName (DependencyNode decomposedName ''2.0.0'' []))"

definition accentTree' :: DependencyNode where
  "accentTree' =
     DependencyNode ''A'' ''1.0.0''
       (map_set (map_set [] decomposedName (DependencyNode decomposedName ''2.0.0'' []))
          composedName (DependencyNode composedName ''1.0.0'' []))"

text \<open>A stand-in for the digests of \<^verbatim>\<open>node:crypto\<close> in the examples; it is injective.\<close>

definition toyDigest :: "algorithm \<Rightarrow> string \<Rightarrow> string" where
  "toyDigest alg s = (case alg of Sha256 \<Rightarrow> ''sha256:'' | Sha512 \<Rightarrow> ''sha512:'') @ s"

declare serialize.simps [simp del] preorder.simps [simp del] same_tree.simps [simp del]
  node_count.simps [simp del] names_separated.simps [simp del]
declare height.simps [simp del] edges_ok.simps [simp del]
declare greedy_edges.simps [simp del] spec_trees.simps [simp del]
  spec_combinations.simps [simp del]
declare exploreTree.simps [simp del] generateDependencyCombinations.simps [simp del]
  exploreVersions.simps [simp del] resolveDependencyTree.simps [simp del] resolveDeps.simps [simp del]



section \<open>Sorting and the serializer\<close>

lemma serialize_node:
  "serialize lc (DependencyNode nm ver deps) indent parts =
     foldl (\<lambda>parts (k, dep). serialize lc dep (indent + 1) parts)
       (parts @ [concat (replicate indent ''  '') @ nm @ ''@'' @ ver])
       (array_sort (by_key lc) deps)"
  by (subst serialize.simps) simp

lemma same_tree_node:
  "same_tree (DependencyNode nm ver deps) (DependencyNode nm' ver' deps') =
     (nm = nm' \<and> ver = ver' \<and> distinct (map fst deps) \<and> distinct (map fst deps') \<and>
      fst ` set deps = fst ` set deps' \<and>
      (\<forall>(k, c) \<in> set deps. \<forall>(k', c') \<in> set deps'. k = k' \<longrightarrow> same_tree c c'))"
  by (subst same_tree.simps) simp

lemma serialize_preorder_acc:
  "serialize lc n d parts = parts @ map line_of (preorder lc d n)"
proof (induction lc n d parts rule: serialize.induct)
  case (1 lc n indent parts)
  have fold: "set es \<subseteq> set (dependencies n) \<Longrightarrow>
      foldl (\<lambda>parts (k, dep). serialize lc dep (indent + 1) parts) acc es
      = acc @ concat (map (\<lambda>(k, c). map line_of (preorder lc (indent + 1) c)) es)" for es acc
  proof (induction es arbitrary: acc)
    case Nil
    then show ?case by simp
  next
    case (Cons e es)
    obtain k dep where e: "e = (k, dep)" by (cases e)
    with Cons.prems have mem: "(k, dep) \<in> set (array_sort (by_key lc) (dependencies n))" by simp
    have step: "serialize lc dep (indent + 1) acc = acc @ map line_of (preorder lc (indent + 1) dep)"
      using "1.IH"[OF mem refl] .
    from Cons.prems have "set es \<subseteq> set (dependencies n)" by simp
    from Cons.IH[OF this] step show ?case by (simp add: e)
  qed
  have "serialize lc n indent parts =
        (parts @ [line_of (indent, n)]) @
        concat (map (\<lambda>(k, c). map line_of (preorder lc (indent + 1) c)) (array_sort (by_key lc) (dependencies n)))"
    by (subst serialize.simps, subst fold) (simp_all add: line_of_def)
  also have "\<dots> = parts @ map line_of (preorder lc indent n)"
    by (subst (2) preorder.simps) (simp add: map_concat comp_def case_prod_unfold)
  finally show ?case .
qed


lemma mset_insert_sorted: "mset (insert_sorted cmp x ys) = add_mset x (mset ys)"
  by (induction ys) auto

lemma mset_array_sort: "mset (array_sort cmp xs) = mset xs"
  by (induction xs) (auto simp: array_sort_def mset_insert_sorted)

lemma length_array_sort: "length (array_sort cmp xs) = length xs"
  using mset_array_sort[of cmp xs] by (metis size_mset)

lemma distinct_array_sort: "distinct (array_sort cmp xs) = distinct xs"
  using mset_array_sort[of cmp xs] by (metis mset_eq_imp_distinct_iff)

lemma sorted_insert_sorted:
  assumes "total_preorder cmp" and "sorted_wrt (\<lambda>a b. cmp a b \<le> 0) ys"
  shows "sorted_wrt (\<lambda>a b. cmp a b \<le> 0) (insert_sorted cmp x ys)"
  using assms(2)
proof (induction ys)
  case Nil
  then show ?case by simp
next
  case (Cons y ys)
  from assms(1) have tot: "\<And>a b. cmp a b \<le> 0 \<or> cmp b a \<le> 0"
    and tr: "\<And>a b c. cmp a b \<le> 0 \<Longrightarrow> cmp b c \<le> 0 \<Longrightarrow> cmp a c \<le> 0"
    unfolding total_preorder_def by blast+
  show ?case
  proof (cases "cmp x y \<le> 0")
    case True
    have "\<forall>z\<in>set ys. cmp x z \<le> 0"
    proof
      fix z assume "z \<in> set ys"
      with Cons.prems have "cmp y z \<le> 0" by simp
      with True show "cmp x z \<le> 0" by (rule tr)
    qed
    with True Cons.prems show ?thesis by simp
  next
    case False
    with tot have yx: "cmp y x \<le> 0" by blast
    from Cons have "sorted_wrt (\<lambda>a b. cmp a b \<le> 0) (insert_sorted cmp x ys)" by simp
    with False yx Cons.prems show ?thesis by simp
  qed
qed

lemma sorted_array_sort:
  "total_preorder cmp \<Longrightarrow> sorted_wrt (\<lambda>a b. cmp a b \<le> 0) (array_sort cmp xs)"
proof (induction xs)
  case Nil
  show ?case by (simp add: array_sort_def)
next
  case (Cons x xs)
  have "sorted_wrt (\<lambda>a b. cmp a b \<le> 0) (insert_sorted cmp x (array_sort cmp xs))"
    using Cons.prems Cons.IH[OF Cons.prems] by (rule sorted_insert_sorted)
  then show ?case by (simp add: array_sort_def)
qed

lemma by_key_apply: "by_key lc a b = lc (fst a) (fst b)"
  by (simp add: by_key_def case_prod_unfold)

lemma total_preorder_by_key:
  assumes "total_preorder lc"
  shows "total_preorder (by_key lc)"
proof -
  from assms have tot: "\<And>a b. lc a b \<le> 0 \<or> lc b a \<le> 0"
    and tr: "\<And>a b c. lc a b \<le> 0 \<Longrightarrow> lc b c \<le> 0 \<Longrightarrow> lc a c \<le> 0"
    unfolding total_preorder_def by blast+
  show ?thesis
    unfolding total_preorder_def by_key_apply
  proof (intro conjI allI impI)
    fix a b :: "string \<times> 'a"
    show "lc (fst a) (fst b) \<le> 0 \<or> lc (fst b) (fst a) \<le> 0" by (rule tot)
  next
    fix a b c :: "string \<times> 'a"
    assume "lc (fst a) (fst b) \<le> 0 \<and> lc (fst b) (fst c) \<le> 0"
    then show "lc (fst a) (fst c) \<le> 0" using tr by blast
  qed
qed

lemma linear_order_total_preorder: "linear_order cmp \<Longrightarrow> total_preorder cmp"
  unfolding linear_order_def total_preorder_def by blast

lemma insert_sorted_map_fst:
  "map fst (insert_sorted (by_key lc) x ys) = insert_sorted lc (fst x) (map fst ys)"
  by (induction ys) (auto simp: by_key_def case_prod_unfold)

lemma array_sort_map_fst:
  "map fst (array_sort (by_key lc) xs) = array_sort lc (map fst xs)"
  by (induction xs) (auto simp: array_sort_def insert_sorted_map_fst)

lemma sorted_distinct_unique:
  assumes "total_preorder cmp"
  shows "(\<forall>a \<in> set xs. \<forall>b \<in> set xs. cmp a b \<le> 0 \<and> cmp b a \<le> 0 \<longrightarrow> a = b) \<Longrightarrow>
         sorted_wrt (\<lambda>a b. cmp a b \<le> 0) xs \<Longrightarrow> sorted_wrt (\<lambda>a b. cmp a b \<le> 0) ys \<Longrightarrow>
         distinct xs \<Longrightarrow> distinct ys \<Longrightarrow> set xs = set ys \<Longrightarrow> xs = ys"
proof (induction xs arbitrary: ys)
  case Nil
  then show ?case by simp
next
  case (Cons x xs)
  from assms have tot: "\<And>a b. cmp a b \<le> 0 \<or> cmp b a \<le> 0"
    unfolding total_preorder_def by blast
  from Cons.prems obtain y ys' where ys: "ys = y # ys'" by (cases ys) auto
  have refl: "\<And>a. cmp a a \<le> 0" using tot by blast
  have "x \<in> set ys" using Cons.prems by auto
  then have yx: "cmp y x \<le> 0" using Cons.prems(3) ys refl by auto
  have ymem: "y \<in> set (x # xs)" using Cons.prems ys by auto
  then have xy: "cmp x y \<le> 0" using Cons.prems(2) refl by auto
  from Cons.prems(1) ymem xy yx have eq: "x = y" by auto
  have "set xs = set ys'" using Cons.prems ys eq by auto
  moreover have "\<forall>a \<in> set xs. \<forall>b \<in> set xs. cmp a b \<le> 0 \<and> cmp b a \<le> 0 \<longrightarrow> a = b"
    using Cons.prems(1) by simp
  ultimately have "xs = ys'" using Cons.IH[of ys'] Cons.prems ys by auto
  with eq ys show ?case by simp
qed

lemma array_sort_keys_unique:
  assumes "total_preorder lc"
    and "\<forall>a \<in> fst ` set xs. \<forall>b \<in> fst ` set xs. lc a b \<le> 0 \<and> lc b a \<le> 0 \<longrightarrow> a = b"
    and "distinct (map fst xs)" "distinct (map fst ys)"
    and "fst ` set xs = fst ` set ys"
  shows "map fst (array_sort (by_key lc) xs) = map fst (array_sort (by_key lc) ys)"
  unfolding array_sort_map_fst
  by (rule sorted_distinct_unique[OF assms(1)])
     (use assms in \<open>simp_all add: sorted_array_sort distinct_array_sort\<close>)

lemma same_tree_lines:
  "total_preorder lc \<Longrightarrow> names_separated lc a \<Longrightarrow> same_tree a b \<Longrightarrow>
   map line_of (preorder lc d a) = map line_of (preorder lc d b)"
proof (induction a b arbitrary: d rule: same_tree.induct)
  case (1 a b)
  let ?sa = "array_sort (by_key lc) (dependencies a)"
  let ?sb = "array_sort (by_key lc) (dependencies b)"
  from "1.prems"(3) same_tree.simps[of a b] have st:
    "name a = name b \<and> version a = version b \<and>
      distinct (map fst (dependencies a)) \<and> distinct (map fst (dependencies b)) \<and>
      fst ` set (dependencies a) = fst ` set (dependencies b) \<and>
      (\<forall>(k, c) \<in> set (dependencies a). \<forall>(k', c') \<in> set (dependencies b). k = k' \<longrightarrow> same_tree c c')"
    by blast
  then have nv: "name a = name b" "version a = version b"
    and da: "distinct (map fst (dependencies a))" and db: "distinct (map fst (dependencies b))"
    and keys: "fst ` set (dependencies a) = fst ` set (dependencies b)"
    by blast+
  from st have kids: "\<And>k c c'. (k, c) \<in> set (dependencies a) \<Longrightarrow> (k, c') \<in> set (dependencies b) \<Longrightarrow> same_tree c c'"
    by fast
  from "1.prems"(2) names_separated.simps[of lc a] have ns:
    "(\<forall>(a', c) \<in> set (dependencies a). \<forall>(b', c') \<in> set (dependencies a).
          lc a' b' \<le> 0 \<and> lc b' a' \<le> 0 \<longrightarrow> a' = b') \<and>
      (\<forall>(k, c) \<in> set (dependencies a). names_separated lc c)"
    by blast
  then have sep: "\<forall>x \<in> fst ` set (dependencies a). \<forall>y \<in> fst ` set (dependencies a).
      lc x y \<le> 0 \<and> lc y x \<le> 0 \<longrightarrow> x = y"
    by fastforce
  from ns have kidsep: "\<And>k c. (k, c) \<in> set (dependencies a) \<Longrightarrow> names_separated lc c"
    by fast
  have fsts: "map fst ?sa = map fst ?sb"
    by (rule array_sort_keys_unique[OF "1.prems"(1) sep da db keys])
  then have len: "length ?sa = length ?sb" by (metis length_map)
  have "map (\<lambda>(k, c). map line_of (preorder lc (d + 1) c)) ?sa
      = map (\<lambda>(k, c). map line_of (preorder lc (d + 1) c)) ?sb"
  proof (rule nth_equalityI)
    show "length (map (\<lambda>(k, c). map line_of (preorder lc (d + 1) c)) ?sa)
        = length (map (\<lambda>(k, c). map line_of (preorder lc (d + 1) c)) ?sb)"
      using len by simp
  next
    fix i assume "i < length (map (\<lambda>(k, c). map line_of (preorder lc (d + 1) c)) ?sa)"
    then have i: "i < length ?sa" "i < length ?sb" using len by simp_all
    obtain k c where a: "?sa ! i = (k, c)" by (cases "?sa ! i")
    obtain k' c' where b: "?sb ! i = (k', c')" by (cases "?sb ! i")
    have "map fst ?sa ! i = map fst ?sb ! i" using fsts by simp
    with i a b have kk: "k = k'" by simp
    have ma: "(k, c) \<in> set (dependencies a)" using nth_mem[OF i(1)] a by simp
    have mb: "(k', c') \<in> set (dependencies b)" using nth_mem[OF i(2)] b by simp
    have "map line_of (preorder lc (d + 1) c) = map line_of (preorder lc (d + 1) c')"
      using "1.IH"[OF ma refl mb refl kk "1.prems"(1) kidsep[OF ma] kids[OF ma mb[folded kk]]] .
    with i a b show "map (\<lambda>(k, c). map line_of (preorder lc (d + 1) c)) ?sa ! i
        = map (\<lambda>(k, c). map line_of (preorder lc (d + 1) c)) ?sb ! i" by simp
  qed
  then have "concat (map (\<lambda>(k, c). map line_of (preorder lc (d + 1) c)) ?sa)
      = concat (map (\<lambda>(k, c). map line_of (preorder lc (d + 1) c)) ?sb)" by simp
  then have "concat (map (\<lambda>x. map line_of (preorder lc (Suc d) (snd x))) ?sa)
      = concat (map (\<lambda>x. map line_of (preorder lc (Suc d) (snd x))) ?sb)"
    by (simp add: case_prod_unfold)
  moreover have "\<And>n. map line_of (preorder lc d n) =
      line_of (d, n) # concat (map (\<lambda>x. map line_of (preorder lc (Suc d) (snd x))) (array_sort (by_key lc) (dependencies n)))"
    by (subst preorder.simps) (simp add: map_concat comp_def case_prod_unfold)
  ultimately show ?case
    by (simp add: line_of_def nv)
qed

lemma names_separated_linear_order:
  "linear_order lc \<Longrightarrow> names_separated lc n"
proof (induction lc n rule: names_separated.induct)
  case (1 lc n)
  from "1.prems" have anti: "\<And>a b. lc a b \<le> 0 \<and> lc b a \<le> 0 \<longrightarrow> a = b"
    unfolding linear_order_def by blast
  have "\<forall>(k, c) \<in> set (dependencies n). names_separated lc c"
    using "1.IH" "1.prems" by fast
  with anti show ?case
    by (subst names_separated.simps) fast
qed

lemma length_preorder: "length (preorder lc d n) = node_count n"
proof (induction lc d n rule: preorder.induct)
  case (1 lc d n)
  have "sum_list (map (\<lambda>(k, c). length (preorder lc (d + 1) c)) (array_sort (by_key lc) (dependencies n)))
      = sum_list (map (\<lambda>(k, c). node_count c) (array_sort (by_key lc) (dependencies n)))"
    by (rule arg_cong[where f = sum_list], rule map_cong[OF refl]) (use 1 in auto)
  also have "\<dots> = sum_mset (image_mset (\<lambda>(k, c). node_count c) (mset (array_sort (by_key lc) (dependencies n))))"
    by (metis mset_map sum_mset_sum_list)
  also have "\<dots> = sum_list (map (\<lambda>(k, c). node_count c) (dependencies n))"
    unfolding mset_array_sort by (metis mset_map sum_mset_sum_list)
  finally show ?case
    by (subst preorder.simps, subst node_count.simps)
       (simp add: length_concat comp_def case_prod_unfold)
qed

lemma length_join:
  "ps \<noteq> [] \<Longrightarrow> length (join sep ps) = sum_list (map length ps) + (length ps - 1) * length sep"
  by (induction sep ps rule: join.induct) auto

lemma linear_order_codeUnitCompare: "linear_order codeUnitCompare"
  unfolding linear_order_def codeUnitCompare_def
proof (intro conjI allI impI)
  fix a b :: string
  show "(if a < b then - 1 else if a = b then 0 else (1::int)) \<le> 0 \<or> (if b < a then - 1 else if b = a then 0 else (1::int)) \<le> 0"
    by (cases a b rule: linorder_cases) simp_all
next
  fix a b c :: string
  assume "(if a < b then - 1 else if a = b then 0 else (1::int)) \<le> 0 \<and> (if b < c then - 1 else if b = c then 0 else (1::int)) \<le> 0"
  then have "a \<le> b" "b \<le> c" by (simp_all split: if_splits)
  then have "a \<le> c" by (rule order_trans)
  then have "a < c \<or> a = c" by (simp add: le_less)
  then show "(if a < c then - 1 else if a = c then 0 else (1::int)) \<le> 0"
    by (elim disjE) simp_all
next
  fix a b :: string
  assume "(if a < b then - 1 else if a = b then 0 else (1::int)) \<le> 0 \<and> (if b < a then - 1 else if b = a then 0 else (1::int)) \<le> 0"
  then have "a \<le> b" "b \<le> a" by (simp_all split: if_splits)
  then show "a = b" by (rule antisym)
qed

lemma total_preorder_codeUnitCompare: "total_preorder codeUnitCompare"
  by (rule linear_order_total_preorder[OF linear_order_codeUnitCompare])

text \<open>
  C3. For every tree, \<^verbatim>\<open>serializeTree\<close> lists the nodes in pre-order, one line
  \<open>indent @ name @ ''@'' @ version\<close> for each node with two spaces of indent for each level of
  depth, joined by single newlines with none at the end, so that there are as many lines as
  nodes; with a consistent comparator the children of every node are visited in ascending
  order of their names, each child once.
\<close>

theorem serializeTree_preorder_listing:
  "serialize lc T 0 [] = map line_of (preorder lc 0 T) \<and>
   serializeTree lc T = join [CHR 0x0A] (map line_of (preorder lc 0 T)) \<and>
   length (serialize lc T 0 []) = node_count T \<and>
   length (serializeTree lc T)
     = sum_list (map length (map line_of (preorder lc 0 T))) + (node_count T - 1) \<and>
   (total_preorder lc \<longrightarrow>
      sorted_wrt (\<lambda>a b. lc (fst a) (fst b) \<le> 0) (array_sort (by_key lc) (dependencies T)) \<and>
      mset (array_sort (by_key lc) (dependencies T)) = mset (dependencies T))"
proof -
  have ser: "serialize lc T 0 [] = map line_of (preorder lc 0 T)"
    using serialize_preorder_acc[of lc T 0 "[]"] by simp
  have ne: "map line_of (preorder lc 0 T) \<noteq> []"
    by (subst preorder.simps) simp
  have len: "length (serializeTree lc T)
     = sum_list (map length (map line_of (preorder lc 0 T))) + (node_count T - 1)"
    unfolding serializeTree_def ser using length_join[OF ne, of "[CHR 0x0A]"]
    by (simp add: length_preorder)
  have srt: "sorted_wrt (\<lambda>a b. lc (fst a) (fst b) \<le> 0) (array_sort (by_key lc) (dependencies T))"
    if "total_preorder lc"
    using sorted_array_sort[OF total_preorder_by_key[OF that], of "dependencies T"]
    by (simp add: by_key_apply)
  show ?thesis
    using ser len srt by (simp add: serializeTree_def length_preorder mset_array_sort)
qed

theorem serializeTree_preorder_listing_witness:
  "total_preorder codeUnitCompare \<and>
   (sorted_wrt (\<lambda>a b. codeUnitCompare (fst a) (fst b) \<le> 0)
      (array_sort (by_key codeUnitCompare) (dependencies witnessTree)) \<and>
    mset (array_sort (by_key codeUnitCompare) (dependencies witnessTree))
      = mset (dependencies witnessTree))"
  using total_preorder_codeUnitCompare
    serializeTree_preorder_listing[of codeUnitCompare witnessTree, THEN conjunct2,
      THEN conjunct2, THEN conjunct2, THEN conjunct2, THEN mp,
      OF total_preorder_codeUnitCompare]
  by (rule conjI)

lemma serializeTree_witnessTree:
  "serializeTree codeUnitCompare witnessTree = ''A@1.0.0'' @ [CHR 0x0A] @ ''  B@1.1.0'' @ [CHR 0x0A] @ ''  C@2.0.0''"
  by (simp add: serializeTree_def witnessTree_def serialize_node array_sort_def by_key_def
        codeUnitCompare_def)

text \<open>
  Let \<^verbatim>\<open>localeCompare\<close> be consistent and tell apart the names that are keys of one children
  map of \<open>T\<close>. Then every tree that is the same tree as \<open>T\<close> up to the order in which the
  children maps were filled has the serialization of \<open>T\<close>, and so the hash of \<open>T\<close> under every
  algorithm.
\<close>

lemma serializeTree_same_tree:
  assumes "total_preorder lc" and "names_separated lc T" and "same_tree T T'"
  shows "serializeTree lc T = serializeTree lc T' \<and>
         (\<forall>alg. hashTree createHash lc T alg = hashTree createHash lc T' alg)"
proof -
  have "serialize lc T 0 [] = serialize lc T' 0 []"
    using same_tree_lines[OF assms, of 0] serialize_preorder_acc[of lc _ 0 "[]"] by simp
  then show ?thesis by (simp add: serializeTree_def hashTree_def)
qed

lemma same_tree_witness_trees: "same_tree witnessTree witnessTree'"
  by (auto simp: same_tree_node witnessTree_def witnessTree'_def)

lemma witness_trees_differ: "dependencies witnessTree \<noteq> dependencies witnessTree'"
  by (simp add: witnessTree_def witnessTree'_def)

lemma serializeTree_same_tree_example:
  "total_preorder codeUnitCompare \<and> names_separated codeUnitCompare witnessTree \<and>
   same_tree witnessTree witnessTree' \<and>
   dependencies witnessTree \<noteq> dependencies witnessTree' \<and>
   serializeTree codeUnitCompare witnessTree = serializeTree codeUnitCompare witnessTree' \<and>
   hashTree toyDigest codeUnitCompare witnessTree Sha256
     = hashTree toyDigest codeUnitCompare witnessTree' Sha256"
proof -
  have sep: "names_separated codeUnitCompare witnessTree"
    by (rule names_separated_linear_order[OF linear_order_codeUnitCompare])
  note th0 = serializeTree_same_tree[OF total_preorder_codeUnitCompare sep
      same_tree_witness_trees, of toyDigest]
  from th0 have "hashTree toyDigest codeUnitCompare witnessTree Sha256
     = hashTree toyDigest codeUnitCompare witnessTree' Sha256" by blast
  with th0 total_preorder_codeUnitCompare sep same_tree_witness_trees witness_trees_differ
  show ?thesis by blast
qed

lemma canonicalCompare_names:
  "canonicalCompare composedName decomposedName = 0"
  "canonicalCompare decomposedName composedName = 0"
  by (simp_all add: canonicalCompare_def codeUnitCompare_def composedName_def decomposedName_def)

lemma serializeTree_accentTree:
  "serializeTree canonicalCompare accentTree
     = ''A@1.0.0'' @ [CHR 0x0A] @ ''  '' @ composedName @ ''@1.0.0'' @ [CHR 0x0A]
         @ ''  '' @ decomposedName @ ''@2.0.0''"
  "serializeTree canonicalCompare accentTree'
     = ''A@1.0.0'' @ [CHR 0x0A] @ ''  '' @ decomposedName @ ''@2.0.0'' @ [CHR 0x0A]
         @ ''  '' @ composedName @ ''@1.0.0''"
  by (simp_all add: serializeTree_def accentTree_def accentTree'_def serialize_node
        array_sort_def by_key_def canonicalCompare_names)
     (simp_all add: composedName_def decomposedName_def)

text \<open>
  C8. The tree \<open>accentTree\<close> has two children whose names are different strings that
  \<^verbatim>\<open>localeCompare\<close> holds equal. Built with the children inserted in the two orders, it is
  the same tree in both cases, and yet the two serializations differ: the sort of
  \<^verbatim>\<open>serializeTree\<close> is stable and leaves the two entries in the order of insertion. The two
  hashes differ as soon as the digest tells the two serializations apart.
\<close>

theorem hash_depends_on_insertion_order:
  "same_tree accentTree accentTree' \<and>
   composedName \<noteq> decomposedName \<and>
   canonicalCompare composedName decomposedName = 0 \<and>
   serializeTree canonicalCompare accentTree \<noteq> serializeTree canonicalCompare accentTree' \<and>
   hashTree toyDigest canonicalCompare accentTree Sha256
     \<noteq> hashTree toyDigest canonicalCompare accentTree' Sha256"
proof -
  have same: "same_tree accentTree accentTree'"
    by (auto simp: same_tree_node accentTree_def accentTree'_def composedName_def
          decomposedName_def)
  have ne: "composedName \<noteq> decomposedName"
    by (simp add: composedName_def decomposedName_def)
  have ser: "serializeTree canonicalCompare accentTree \<noteq> serializeTree canonicalCompare accentTree'"
    by (simp add: serializeTree_accentTree composedName_def decomposedName_def)
  then have "hashTree toyDigest canonicalCompare accentTree Sha256
     \<noteq> hashTree toyDigest canonicalCompare accentTree' Sha256"
    by (simp add: hashTree_def toyDigest_def)
  with same ne canonicalCompare_names(1) ser show ?thesis by (intro conjI)
qed

section \<open>Generators that only fetch\<close>

lemma versionsGet_own:
  "map_of (versions md) ver = Some vd \<Longrightarrow> versionsGet md ver = Some vd"
  by (simp add: versionsGet_def)

lemma versionsGet_deps:
  "versionsGet md ver = Some vd \<Longrightarrow> getDependencies vd \<noteq> [] \<Longrightarrow>
   map_of (versions md) ver = Some vd"
  by (auto simp: versionsGet_def inheritedMember_def getDependencies_def
           split: option.splits if_splits)

lemma versionsGet_absent:
  "map_of (versions md) ver = None \<Longrightarrow>
   versionsGet md ver = (if ver \<in> set objectPrototypeMembers then Some inheritedMember else None)"
  by (simp add: versionsGet_def)

lemma getDependencies_inheritedMember [simp]: "getDependencies inheritedMember = []"
  by (simp add: getDependencies_def inheritedMember_def)

lemma map_of_map_set: "map_of (map_set m k v) = (map_of m)(k \<mapsto> v)"
  by (induction m k v rule: map_set.induct) auto

lemma set_map_set: "set (map_set m k v) \<subseteq> insert (k, v) (set m)"
  by (induction m k v rule: map_set.induct) auto

lemma getCachedMetadata_result:
  "fst (getCachedMetadata e nm w) =
     (case metadataView e w nm of
        Some md \<Rightarrow> Inr md
      | None \<Rightarrow> Inl (Error (''Failed to fetch '' @ nm)))"
  by (simp add: getCachedMetadata_def metadataView_def fetchPackageMetadata_def
           split: option.splits)

lemma getCachedMetadata_view:
  "metadataView e (snd (getCachedMetadata e nm w)) = metadataView e w"
  by (rule ext)
     (simp add: getCachedMetadata_def metadataView_def fetchPackageMetadata_def map_of_map_set
           split: option.splits)

lemma getCachedMetadata_treeCount:
  "treeCount (snd (getCachedMetadata e nm w)) = treeCount w"
  by (simp add: getCachedMetadata_def fetchPackageMetadata_def split: option.splits)

lemma getCachedMetadata_cases:
  assumes "getCachedMetadata e nm w = (r, w1)"
  shows "metadataView e w1 = metadataView e w" and "treeCount w1 = treeCount w"
    and "r = Inr md \<longleftrightarrow> metadataView e w nm = Some md"
  using getCachedMetadata_view[of e nm w] getCachedMetadata_treeCount[of e nm w]
    getCachedMetadata_result[of e nm w] assms
  by (auto split: option.splits)

lemma metadataView_treeCount [simp]:
  "metadataView e (w\<lparr>treeCount := c\<rparr>) = metadataView e w"
  by (rule ext) (simp add: metadataView_def)

lemma cache_inv_view: "cache_inv e V C w \<Longrightarrow> metadataView e w = V"
  by (simp add: cache_inv_def)

lemma cache_inv_self [simp]: "cache_inv e (metadataView e w) (metadataCache w) w"
  by (simp add: cache_inv_def)

lemma cache_inv_treeCount [simp]:
  "cache_inv e V C (w\<lparr>treeCount := c\<rparr>) = cache_inv e V C w"
  by (simp add: cache_inv_def)

lemma getCachedMetadata_cache:
  "map_of (metadataCache w) \<subseteq>\<^sub>m map_of (metadataCache (snd (getCachedMetadata e nm w)))"
  by (auto simp: getCachedMetadata_def fetchPackageMetadata_def map_of_map_set map_le_def
           split: option.splits)

lemma getCachedMetadata_inv:
  assumes "getCachedMetadata e nm w = (r, w1)" and "cache_inv e V C w"
  shows "cache_inv e V C w1"
  using assms getCachedMetadata_view[of e nm w] getCachedMetadata_cache[of w e nm]
  by (auto simp: cache_inv_def intro: map_le_trans)

lemma yields_ok_mono:
  "yields_ok e b V C P g c \<Longrightarrow> (\<And>x. P x \<Longrightarrow> Q x) \<Longrightarrow> yields_ok e b V C Q g c"
  by (induction g arbitrary: c) auto

lemma yields_ok_genAppend:
  "yields_ok e True V C P g c \<Longrightarrow>
   (\<And>w. cache_inv e V C w \<Longrightarrow> yields_ok e True V C P (f w) (treeCount w)) \<Longrightarrow>
   yields_ok e True V C P (genAppend g f) c"
  by (induction g arbitrary: c) auto

lemma yields_ok_genCatch:
  "yields_ok e True V C P g c \<Longrightarrow>
   (\<And>w. cache_inv e V C w \<Longrightarrow> yields_ok e True V C P (h w) (treeCount w)) \<Longrightarrow>
   yields_ok e True V C P (genCatch g h) c"
  by (induction g arbitrary: c) auto

lemma yields_ok_genMap:
  "yields_ok e b V C P g c \<Longrightarrow> (\<And>x. P x \<Longrightarrow> Q (f x)) \<Longrightarrow> yields_ok e b V C Q (genMap f g) c"
  by (induction g arbitrary: c) auto

lemma yields_ok_genFlatMap:
  "yields_ok e True V C P g c \<Longrightarrow>
   (\<And>x w. P x \<Longrightarrow> cache_inv e V C w \<Longrightarrow> yields_ok e True V C Q (f x w) (treeCount w)) \<Longrightarrow>
   yields_ok e True V C Q (genFlatMap g f) c"
proof (induction g arbitrary: c)
  case (Yield x w k)
  then show ?case
    by (auto intro!: yields_ok_genAppend)
qed auto

lemma yields_ok_exploreLoop:
  "yields_ok e True V C P g c \<Longrightarrow>
   (\<And>x. P x \<Longrightarrow> Q (DependencyNode nm ver x)) \<Longrightarrow>
   yields_ok e (0 < depth ctx) V C Q (exploreLoop nm ver ctx g) c"
  by (induction g arbitrary: c) (auto simp: metadataView_def)

section \<open>Invariants of the trees under construction\<close>

lemma max_list_le: "max_list xs \<le> h \<longleftrightarrow> (\<forall>x \<in> set xs. x \<le> h)"
  by (induction xs) auto

lemma height_node:
  "height (DependencyNode nm ver deps) \<le> Suc h \<longleftrightarrow> (\<forall>(k, c) \<in> set deps. height c \<le> h)"
  by (subst height.simps) (auto simp: max_list_le)

lemma height_leaf [simp]: "height (createEmptyNode nm ver) = 1"
  by (subst height.simps) (simp add: createEmptyNode_def)

lemma edges_ok_leaf [simp]: "edges_ok e V pick (createEmptyNode nm ver)"
  by (subst edges_ok.simps) (simp add: createEmptyNode_def)

lemma tree_ok_leaf [simp]: "tree_ok e V pick (Suc h) nm ver (createEmptyNode nm ver)"
  by (simp add: tree_ok_def) (simp add: createEmptyNode_def)

lemma combo_ok_Nil [simp]: "combo_ok e V pick h depNames allDeps []"
  by (simp add: combo_ok_def)

lemma combo_ok_weaken:
  "combo_ok e V pick h depNames allDeps combo \<Longrightarrow> set depNames \<subseteq> set depNames' \<Longrightarrow>
   combo_ok e V pick h depNames' allDeps combo"
  unfolding combo_ok_def by fast

lemma combo_ok_map_set:
  assumes "combo_ok e V pick h depNames allDeps combo"
    and "tree_ok e V pick h currentDep depVersion t"
    and "(currentDep, r) \<in> set allDeps" "V currentDep = Some mdk"
    and "depVersion \<in> pick (getMatchingVersions e mdk r)"
    and "currentDep \<in> set depNames"
  shows "combo_ok e V pick h depNames allDeps (map_set combo currentDep t)"
proof -
  have new: "k \<in> set depNames \<and> name c = k \<and> height c \<le> h \<and> edges_ok e V pick c \<and>
        (\<exists>r mdk. (k, r) \<in> set allDeps \<and> V k = Some mdk \<and>
           version c \<in> pick (getMatchingVersions e mdk r))"
    if "(k, c) \<in> insert (currentDep, t) (set combo)" for k c
  proof (cases "(k, c) = (currentDep, t)")
    case True
    with assms(2-6) show ?thesis by (auto simp: tree_ok_def)
  next
    case False
    with that have "(k, c) \<in> set combo" by blast
    with assms(1) show ?thesis unfolding combo_ok_def by fastforce
  qed
  show ?thesis
    unfolding combo_ok_def using set_map_set[of combo currentDep t] new by blast
qed

lemma tree_ok_node:
  assumes "combo_ok e V pick h depNames (getDependencies vd) combo"
    and "V nm = Some md" "map_of (versions md) ver = Some vd"
  shows "tree_ok e V pick (Suc h) nm ver (DependencyNode nm ver combo)"
proof -
  have hh: "height (DependencyNode nm ver combo) \<le> Suc h"
    using assms(1) by (simp add: height_node combo_ok_def case_prod_unfold)
  have edges: "edges_ok e V pick (DependencyNode nm ver combo)"
    by (subst edges_ok.simps) (use assms(1-3) in \<open>fastforce simp: combo_ok_def\<close>)
  from hh edges show ?thesis by (simp add: tree_ok_def)
qed

lemma tree_ok_height_mono:
  "tree_ok e V pick h nm ver t \<Longrightarrow> h \<le> h' \<Longrightarrow> tree_ok e V pick h' nm ver t"
  by (simp add: tree_ok_def)

lemma depthBudget_step:
  "int d \<le> m \<Longrightarrow> depthBudget m d = Suc (depthBudget m (d + 1))"
  by (simp add: depthBudget_def)

section \<open>The exhaustive generator keeps the invariants\<close>

lemma explore_ok:
  shows "cache_inv e V C w \<Longrightarrow>
         yields_ok e (0 < depth ctx) V C (tree_ok e V top3 (depthBudget (maxDepth ctx) (depth ctx) + 1) pkgName pkgVersion)
           (exploreTree e pkgName pkgVersion ctx w) (treeCount w)"
    and "cache_inv e V C w \<Longrightarrow>
         yields_ok e True V C (combo_ok e V top3 (depthBudget (maxDepth ctx) (depth ctx + 1) + 1) depNames allDeps)
           (generateDependencyCombinations e depNames allDeps ctx w) (treeCount w)"
    and "cache_inv e V C w \<Longrightarrow>
         (\<exists>r mdk. (currentDep, r) \<in> set allDeps \<and> V currentDep = Some mdk \<and>
            set vs \<subseteq> top3 (getMatchingVersions e mdk r)) \<Longrightarrow>
         yields_ok e True V C (combo_ok e V top3 (depthBudget (maxDepth ctx) (depth ctx + 1) + 1) (currentDep # remainingDeps) allDeps)
           (exploreVersions e currentDep remainingDeps allDeps ctx vs w) (treeCount w)"
proof (induction e pkgName pkgVersion ctx w and e depNames allDeps ctx w
         and e currentDep remainingDeps allDeps ctx vs w
       arbitrary: V and V and V
       rule: exploreTree_generateDependencyCombinations_exploreVersions.induct)
  case (1 e pkgName pkgVersion ctx w)
  note view = \<open>cache_inv e V C w\<close>
  show ?case
  proof (cases "int (depth ctx) > maxDepth ctx \<or> int (treeCount w) \<ge> maxTrees ctx
                  \<or> resolutionKey pkgName pkgVersion \<in> resolving ctx")
    case True
    then show ?thesis
      by (subst exploreTree.simps) (simp add: view)
  next
    case False
    obtain r w1 where g: "getCachedMetadata e pkgName w = (r, w1)"
      by (cases "getCachedMetadata e pkgName w")
    note facts = getCachedMetadata_cases[OF g]
    have view1: "cache_inv e V C w1" and cnt1: "treeCount w1 = treeCount w"
      using getCachedMetadata_inv[OF g view] facts(2) by simp_all
    show ?thesis
    proof (cases r)
      case (Inl err)
      with False g view1 cnt1 show ?thesis
        by (subst exploreTree.simps) simp
    next
      case (Inr md)
      with facts(3)[of md] cache_inv_view[OF view] have Vmd: "V pkgName = Some md" by simp
      show ?thesis
      proof (cases "versionsGet md pkgVersion")
        case None
        with False g Inr view1 cnt1 show ?thesis
          by (subst exploreTree.simps) simp
      next
        case (Some vd)
        show ?thesis
        proof (cases "map fst (getDependencies vd) = []")
          case True
          with False g Inr Some view1 cnt1 show ?thesis
            by (subst exploreTree.simps) simp
        next
          case nonempty: False
          then have own: "map_of (versions md) pkgVersion = Some vd"
            using versionsGet_deps[OF Some] by auto
          let ?ctx' = "ctx\<lparr>resolving := insert (resolutionKey pkgName pkgVersion) (resolving ctx)\<rparr>"
          have ih: "yields_ok e True V C
                      (combo_ok e V top3 (depthBudget (maxDepth ?ctx') (depth ?ctx' + 1) + 1)
                         (map fst (getDependencies vd)) (getDependencies vd))
                      (generateDependencyCombinations e (map fst (getDependencies vd))
                         (getDependencies vd) ?ctx' w1) (treeCount w1)"
            using "1.IH"[OF False g[symmetric] Inr Some nonempty view1] .
          have dep: "int (depth ctx) \<le> maxDepth ctx" using False by simp
          have step: "tree_ok e V top3 (depthBudget (maxDepth ctx) (depth ctx) + 1) pkgName pkgVersion
                        (DependencyNode pkgName pkgVersion x)"
            if "combo_ok e V top3 (depthBudget (maxDepth ?ctx') (depth ?ctx' + 1) + 1)
                  (map fst (getDependencies vd)) (getDependencies vd) x" for x
          proof -
            from that have "combo_ok e V top3 (depthBudget (maxDepth ctx) (depth ctx))
                  (map fst (getDependencies vd)) (getDependencies vd) x"
              using depthBudget_step[OF dep] by simp
            then show ?thesis using Vmd own by (simp add: tree_ok_node)
          qed
          have "yields_ok e (0 < depth ctx) V C (tree_ok e V top3 (depthBudget (maxDepth ctx) (depth ctx) + 1) pkgName pkgVersion)
                  (exploreLoop pkgName pkgVersion ctx
                     (generateDependencyCombinations e (map fst (getDependencies vd))
                        (getDependencies vd) ?ctx' w1)) (treeCount w1)"
            using ih step by (rule yields_ok_exploreLoop)
          with False g Inr Some nonempty cnt1 show ?thesis
            by (subst exploreTree.simps) simp
        qed
      qed
    qed
  qed
next
  case (2 e allDeps ctx w)
  then show ?case
    by (subst generateDependencyCombinations.simps) simp
next
  case (3 e currentDep remainingDeps allDeps ctx w)
  note view = \<open>cache_inv e V C w\<close>
  obtain r w1 where g: "getCachedMetadata e currentDep w = (r, w1)"
    by (cases "getCachedMetadata e currentDep w")
  note facts = getCachedMetadata_cases[OF g]
  have view1: "cache_inv e V C w1" and cnt1: "treeCount w1 = treeCount w"
    using getCachedMetadata_inv[OF g view] facts(2) by simp_all
  let ?ms = "\<lambda>md. take 3 (case map_of allDeps currentDep of None \<Rightarrow> []
                        | Some depRange \<Rightarrow> getMatchingVersions e md depRange)"
  have rest: "yields_ok e True V C (combo_ok e V top3 (depthBudget (maxDepth ctx) (depth ctx + 1) + 1) (currentDep # remainingDeps) allDeps)
                (generateDependencyCombinations e remainingDeps allDeps ctx w') (treeCount w')"
    if "cache_inv e V C w'" for w'
    using "3.IH"(3)[OF that]
    by (rule yields_ok_mono) (auto intro: combo_ok_weaken)
  have body: "yields_ok e True V C (combo_ok e V top3 (depthBudget (maxDepth ctx) (depth ctx + 1) + 1) (currentDep # remainingDeps) allDeps)
      (case getCachedMetadata e currentDep w of
          (Inl err, w1) \<Rightarrow> Throw err w1
        | (Inr depMetadata, w1) \<Rightarrow>
            (if ?ms depMetadata = []
             then generateDependencyCombinations e remainingDeps allDeps ctx w1
             else exploreVersions e currentDep remainingDeps allDeps ctx (?ms depMetadata) w1))
      (treeCount w)"
  proof (cases r)
    case (Inl err)
    with g view1 cnt1 show ?thesis by simp
  next
    case (Inr md)
    with facts(3)[of md] cache_inv_view[OF view] have Vmd: "V currentDep = Some md" by simp
    show ?thesis
    proof (cases "?ms md = []")
      case True
      with g Inr rest[OF view1] cnt1 show ?thesis by simp
    next
      case False
      then obtain rng where rng: "map_of allDeps currentDep = Some rng"
        by (cases "map_of allDeps currentDep") auto
      have "\<exists>r mdk. (currentDep, r) \<in> set allDeps \<and> V currentDep = Some mdk \<and>
              set (?ms md) \<subseteq> top3 (getMatchingVersions e mdk r)"
        using rng Vmd map_of_SomeD[OF rng] by (auto simp: top3_def)
      from "3.IH"(2)[OF g[symmetric] Inr False view1 this]
      show ?thesis using g Inr False cnt1 by simp
    qed
  qed
  show ?case
    by (subst generateDependencyCombinations.simps)
       (rule yields_ok_genCatch[OF body rest])
next
  case (4 e currentDep remainingDeps allDeps ctx w)
  then show ?case
    by (subst exploreVersions.simps) simp
next
  case (5 e currentDep remainingDeps allDeps ctx depVersion moreVersions w)
  note view = \<open>cache_inv e V C w\<close>
  from "5.prems"(2) obtain r mdk where rm: "(currentDep, r) \<in> set allDeps" "V currentDep = Some mdk"
    and sub: "set (depVersion # moreVersions) \<subseteq> top3 (getMatchingVersions e mdk r)"
    by blast
  show ?case
  proof (cases "int (treeCount w) \<ge> maxTrees ctx")
    case True
    with view show ?thesis
      by (subst exploreVersions.simps) simp
  next
    case False
    then have nb: "\<not> maxTrees ctx \<le> int (treeCount w)" by simp
    let ?ctx1 = "ctx\<lparr>depth := depth ctx + 1\<rparr>"
    have e1: "yields_ok e True V C
                (tree_ok e V top3 (depthBudget (maxDepth ctx) (depth ctx + 1) + 1) currentDep depVersion)
                (exploreTree e currentDep depVersion ?ctx1 w) (treeCount w)"
      using "5.IH"(1)[OF nb view] by simp
    have inner: "yields_ok e True V C (combo_ok e V top3 (depthBudget (maxDepth ctx) (depth ctx + 1) + 1) (currentDep # remainingDeps) allDeps)
            (genMap (\<lambda>remainingCombination. map_set remainingCombination currentDep x)
               (generateDependencyCombinations e remainingDeps allDeps ctx w'))
            (treeCount w')"
      if "tree_ok e V top3 (depthBudget (maxDepth ctx) (depth ctx + 1) + 1) currentDep depVersion x"
         "cache_inv e V C w'" for x w'
    proof (rule yields_ok_genMap[OF "5.IH"(2)[OF nb that(2)]])
      fix combo
      assume "combo_ok e V top3 (depthBudget (maxDepth ctx) (depth ctx + 1) + 1) remainingDeps allDeps combo"
      then have "combo_ok e V top3 (depthBudget (maxDepth ctx) (depth ctx + 1) + 1)
                   (currentDep # remainingDeps) allDeps combo"
        by (rule combo_ok_weaken) auto
      then show "combo_ok e V top3 (depthBudget (maxDepth ctx) (depth ctx + 1) + 1)
                   (currentDep # remainingDeps) allDeps (map_set combo currentDep x)"
        using that(1) rm(1,2) sub by (intro combo_ok_map_set[where r = r and mdk = mdk]) auto
    qed
    have more: "yields_ok e True V C (combo_ok e V top3 (depthBudget (maxDepth ctx) (depth ctx + 1) + 1) (currentDep # remainingDeps) allDeps)
            (exploreVersions e currentDep remainingDeps allDeps ctx moreVersions w') (treeCount w')"
      if "cache_inv e V C w'" for w'
      using "5.IH"(3)[OF nb that] rm sub by auto
    have "yields_ok e True V C (combo_ok e V top3 (depthBudget (maxDepth ctx) (depth ctx + 1) + 1) (currentDep # remainingDeps) allDeps)
        (genAppend
             (genFlatMap
                (exploreTree e currentDep depVersion ?ctx1 w)
                (\<lambda>resolvedDep w'.
                   genMap (\<lambda>remainingCombination.
                             map_set remainingCombination currentDep resolvedDep)
                     (generateDependencyCombinations e remainingDeps allDeps ctx w')))
             (\<lambda>w'. exploreVersions e currentDep remainingDeps allDeps ctx moreVersions w'))
        (treeCount w)"
      by (rule yields_ok_genAppend[OF yields_ok_genFlatMap[OF e1 inner] more])
    with False show ?thesis
      by (subst exploreVersions.simps) simp
  qed
qed

section \<open>The greedy resolver keeps the invariants\<close>

lemma top1_hd: "ms \<noteq> [] \<Longrightarrow> hd ms \<in> top1 ms"
  by (cases ms) (simp_all add: top1_def)

lemma resolve_ok:
  shows "cache_inv e V C w \<Longrightarrow>
         cache_inv e V C (snd (resolveDependencyTree e packageName ver options dpth rslv w)) \<and>
         (\<forall>t. fst (resolveDependencyTree e packageName ver options dpth rslv w) = Inr t \<longrightarrow>
            tree_ok e V top1 (depthBudget (effectiveMaxDepth options) dpth + 1) packageName ver t)"
    and "cache_inv e V C w \<Longrightarrow>
         combo_ok e V top1 (depthBudget (effectiveMaxDepth options) (dpth + 1) + 1) names allDeps acc \<Longrightarrow>
         set deps \<subseteq> set allDeps \<Longrightarrow> fst ` set deps \<subseteq> set names \<Longrightarrow>
         cache_inv e V C (snd (resolveDeps e options dpth rslv deps acc w)) \<and>
         combo_ok e V top1 (depthBudget (effectiveMaxDepth options) (dpth + 1) + 1) names allDeps
           (fst (resolveDeps e options dpth rslv deps acc w))"
proof (induction e packageName ver options dpth rslv w and e options dpth rslv deps acc w
       arbitrary: V and V names allDeps
       rule: resolveDependencyTree_resolveDeps.induct)
  case (1 e packageName ver options dpth rslv w)
  note view = \<open>cache_inv e V C w\<close>
  show ?case
  proof (cases "int dpth > (case optMaxDepth options of None \<Rightarrow> 10 | Some m \<Rightarrow> m)
                  \<or> resolutionKey packageName ver \<in> rslv")
    case True
    then show ?thesis
      by (subst (1 2) resolveDependencyTree.simps) (simp add: view)
  next
    case False
    obtain r w1 where g: "getCachedMetadata e packageName w = (r, w1)"
      by (cases "getCachedMetadata e packageName w")
    note facts = getCachedMetadata_cases[OF g]
    have view1: "cache_inv e V C w1" by (rule getCachedMetadata_inv[OF g view])
    show ?thesis
    proof (cases r)
      case (Inl err)
      with False g view1 show ?thesis
        by (subst (1 2) resolveDependencyTree.simps) simp
    next
      case (Inr md)
      with facts(3)[of md] cache_inv_view[OF view] have Vmd: "V packageName = Some md" by simp
      show ?thesis
      proof (cases "versionsGet md ver")
        case None
        with False g Inr view1 show ?thesis
          by (subst (1 2) resolveDependencyTree.simps) simp
      next
        case (Some vd)
        let ?rs = "insert (resolutionKey packageName ver) rslv"
        let ?res = "resolveDeps e options dpth ?rs (getDependencies vd) [] w1"
        have dep: "int dpth \<le> effectiveMaxDepth options"
          using False by (simp add: effectiveMaxDepth_def)
        have ih: "cache_inv e V C (snd ?res) \<and>
                  combo_ok e V top1 (depthBudget (effectiveMaxDepth options) (dpth + 1) + 1)
                    (map fst (getDependencies vd)) (getDependencies vd) (fst ?res)"
          by (rule "1.IH"[OF False g[symmetric] Inr Some view1]) simp_all
        then have "combo_ok e V top1 (depthBudget (effectiveMaxDepth options) (dpth + 1) + 1)
                    (map fst (getDependencies vd)) (getDependencies vd) (fst ?res)" ..
        then have "tree_ok e V top1 (Suc (depthBudget (effectiveMaxDepth options) (dpth + 1) + 1))
                     packageName ver (DependencyNode packageName ver (fst ?res))"
        proof (cases "getDependencies vd = []")
          case True
          then have "fst ?res = []" by (simp add: resolveDeps.simps)
          then show ?thesis
            using tree_ok_leaf[of e V top1 _ packageName ver] by (simp add: createEmptyNode_def)
        next
          case False
          assume "combo_ok e V top1 (depthBudget (effectiveMaxDepth options) (dpth + 1) + 1)
                    (map fst (getDependencies vd)) (getDependencies vd) (fst ?res)"
          then show ?thesis
            using Vmd versionsGet_deps[OF Some False] by (rule tree_ok_node)
        qed
        then have "tree_ok e V top1 (depthBudget (effectiveMaxDepth options) dpth + 1)
                     packageName ver (DependencyNode packageName ver (fst ?res))"
          using depthBudget_step[OF dep] by simp
        with False g Inr Some ih show ?thesis
          by (subst (1 2) resolveDependencyTree.simps) (simp add: case_prod_unfold)
      qed
    qed
  qed
next
  case (2 e options dpth rslv resolvedDeps w)
  then show ?case
    by (subst (1 2) resolveDeps.simps) simp
next
  case (3 e options dpth rslv depName depRange rest resolvedDeps w)
  note view = \<open>cache_inv e V C w\<close>
  note acc = \<open>combo_ok e V top1 (depthBudget (effectiveMaxDepth options) (dpth + 1) + 1) names allDeps resolvedDeps\<close>
  from "3.prems" have mem: "(depName, depRange) \<in> set allDeps" "depName \<in> set names"
    and sub: "set rest \<subseteq> set allDeps" "fst ` set rest \<subseteq> set names" by auto
  obtain r w1 where g: "getCachedMetadata e depName w = (r, w1)"
    by (cases "getCachedMetadata e depName w")
  note facts = getCachedMetadata_cases[OF g]
  have view1: "cache_inv e V C w1" by (rule getCachedMetadata_inv[OF g view])
  show ?case
  proof (cases r)
    case (Inl err)
    from "3.IH"(1)[OF g[symmetric] Inl view1 acc sub] g Inl show ?thesis
      by (subst (1 2) resolveDeps.simps) simp
  next
    case (Inr md)
    with facts(3)[of md] cache_inv_view[OF view] have Vmd: "V depName = Some md" by simp
    show ?thesis
    proof (cases "getMatchingVersions e md depRange")
      case Nil
      from "3.IH"(2)[OF g[symmetric] Inr Nil view1 acc sub] g Inr Nil show ?thesis
        by (subst (1 2) resolveDeps.simps) simp
    next
      case (Cons v vs)
      let ?sub = "resolveDependencyTree e depName v options (dpth + 1) rslv w1"
      obtain r2 w2 where s: "?sub = (r2, w2)" by (cases ?sub)
      from "3.IH"(3)[OF g[symmetric] Inr Cons view1] s
      have view2: "cache_inv e V C w2"
        and t_ok: "\<And>t. r2 = Inr t \<Longrightarrow>
               tree_ok e V top1 (depthBudget (effectiveMaxDepth options) (dpth + 1) + 1) depName v t"
        by simp_all
      show ?thesis
      proof (cases r2)
        case (Inl err)
        from "3.IH"(4)[OF g[symmetric] Inr Cons s[symmetric] Inl view2 acc sub] g Inr Cons s Inl
        show ?thesis
          by (subst (1 2) resolveDeps.simps) simp
      next
        case r2: (Inr t)
        have vin: "v \<in> top1 (getMatchingVersions e md depRange)"
          using top1_hd[of "getMatchingVersions e md depRange"] Cons by simp
        have acc': "combo_ok e V top1 (depthBudget (effectiveMaxDepth options) (dpth + 1) + 1) names allDeps
                      (map_set resolvedDeps depName t)"
          using acc t_ok[OF r2] mem(1) Vmd vin mem(2) by (rule combo_ok_map_set)
        from "3.IH"(5)[OF g[symmetric] Inr Cons s[symmetric] r2 view2 acc' sub] g Inr Cons s r2
        show ?thesis
          by (subst (1 2) resolveDeps.simps) simp
      qed
    qed
  qed
qed

section \<open>The greedy resolver takes the first match of every declared dependency\<close>

lemma greedy_edges_leaf:
  "int d > maxD \<or> resolutionKey nm ver \<in> path \<Longrightarrow>
   greedy_edges e V maxD d path (createEmptyNode nm ver)"
  by (subst greedy_edges.simps) (simp add: createEmptyNode_def)

lemma fst_set_map_set: "fst ` set (map_set m k v) = insert k (fst ` set m)"
  by (induction m k v rule: map_set.induct) auto

lemma in_set_map_set:
  "(k', c) \<in> set (map_set m k v) \<Longrightarrow> (k', c) = (k, v) \<or> (k', c) \<in> set m"
  using set_map_set[of m k v] by blast

lemma getMatchingVersions_spec: "getMatchingVersions e md r = spec_matching e md r"
  by (simp add: getMatchingVersions_def spec_matching_def)

lemma spec_matching_set:
  "set (spec_matching e md r) = {v \<in> set (map fst (versions md)). satisfies e v r}"
  by (auto simp: spec_matching_def)

lemma resolve_nested_ok:
  assumes "cache_inv e V C w" "V nm = Some md" "ver \<in> set (map fst (versions md))"
  shows "\<exists>t. fst (resolveDependencyTree e nm ver opts d rslv w) = Inr t"
proof -
  obtain r w1 where g: "getCachedMetadata e nm w = (r, w1)"
    by (cases "getCachedMetadata e nm w")
  from getCachedMetadata_cases(3)[OF g, of md] cache_inv_view[OF assms(1)] assms(2)
  have r: "r = Inr md" by simp
  from assms(3) obtain vd where "map_of (versions md) ver = Some vd"
    by (cases "map_of (versions md) ver") (auto simp: map_of_eq_None_iff)
  then have "versionsGet md ver = Some vd" by (rule versionsGet_own)
  with g r show ?thesis
    by (subst resolveDependencyTree.simps) (simp add: case_prod_unfold)
qed

lemma declared_edges_present_Cons:
  "declared_edges_present e V rest keys \<Longrightarrow>
   (case V k of None \<Rightarrow> True | Some mdk \<Rightarrow> spec_matching e mdk r \<noteq> [] \<longrightarrow> k \<in> keys) \<Longrightarrow>
   declared_edges_present e V ((k, r) # rest) keys"
  by (simp add: declared_edges_present_def)

lemma edge_to_first_match_Cons:
  "edge_to_first_match e V rest k c \<Longrightarrow> edge_to_first_match e V (x # rest) k c"
  by (auto simp: edge_to_first_match_def)

lemma edge_to_first_match_here:
  "V k = Some mdk \<Longrightarrow> spec_matching e mdk r = v # vs \<Longrightarrow> name c = k \<Longrightarrow> version c = v \<Longrightarrow>
   edge_to_first_match e V ((k, r) # rest) k c"
proof -
  assume a: "V k = Some mdk" "spec_matching e mdk r = v # vs" "name c = k" "version c = v"
  have "v \<in> set (spec_matching e mdk r)" using a(2) by simp
  then have "satisfies e v r" by (simp add: spec_matching_set)
  with a show ?thesis by (simp add: edge_to_first_match_def)
qed

lemma resolve_picks:
  shows "cache_inv e V C w \<Longrightarrow>
         (\<forall>t. fst (resolveDependencyTree e packageName ver options dpth rslv w) = Inr t \<longrightarrow>
            name t = packageName \<and> version t = ver \<and>
            greedy_edges e V (effectiveMaxDepth options) dpth rslv t)"
    and "cache_inv e V C w \<Longrightarrow>
         fst ` set acc \<subseteq> fst ` set (fst (resolveDeps e options dpth rslv deps acc w)) \<and>
         declared_edges_present e V deps (fst ` set (fst (resolveDeps e options dpth rslv deps acc w))) \<and>
         (\<forall>(k, c) \<in> set (fst (resolveDeps e options dpth rslv deps acc w)).
             (k, c) \<in> set acc \<or>
             (edge_to_first_match e V deps k c \<and>
              greedy_edges e V (effectiveMaxDepth options) (dpth + 1) rslv c))"
proof (induction e packageName ver options dpth rslv w and e options dpth rslv deps acc w
       arbitrary: V and V
       rule: resolveDependencyTree_resolveDeps.induct)
  case (1 e packageName ver options dpth rslv w)
  note view = \<open>cache_inv e V C w\<close>
  show ?case
  proof (cases "int dpth > (case optMaxDepth options of None \<Rightarrow> 10 | Some m \<Rightarrow> m)
                  \<or> resolutionKey packageName ver \<in> rslv")
    case True
    then have "fst (resolveDependencyTree e packageName ver options dpth rslv w)
                 = Inr (createEmptyNode packageName ver)"
      by (subst resolveDependencyTree.simps) simp
    moreover have "greedy_edges e V (effectiveMaxDepth options) dpth rslv (createEmptyNode packageName ver)"
      using True by (intro greedy_edges_leaf) (simp add: effectiveMaxDepth_def)
    ultimately show ?thesis by (auto simp: createEmptyNode_def)
  next
    case False
    obtain r w1 where g: "getCachedMetadata e packageName w = (r, w1)"
      by (cases "getCachedMetadata e packageName w")
    note facts = getCachedMetadata_cases[OF g]
    have view1: "cache_inv e V C w1" by (rule getCachedMetadata_inv[OF g view])
    show ?thesis
    proof (cases r)
      case (Inl err)
      with False g show ?thesis
        by (subst resolveDependencyTree.simps) simp
    next
      case (Inr md)
      with facts(3)[of md] cache_inv_view[OF view] have Vmd: "V packageName = Some md" by simp
      show ?thesis
      proof (cases "versionsGet md ver")
        case None
        with False g Inr show ?thesis
          by (subst resolveDependencyTree.simps) simp
      next
        case (Some vd)
        let ?rs = "insert (resolutionKey packageName ver) rslv"
        let ?out = "fst (resolveDeps e options dpth ?rs (getDependencies vd) [] w1)"
        have ih: "declared_edges_present e V (getDependencies vd) (fst ` set ?out) \<and>
                  (\<forall>(k, c) \<in> set ?out. (k, c) \<in> set [] \<or>
                     (edge_to_first_match e V (getDependencies vd) k c \<and>
                      greedy_edges e V (effectiveMaxDepth options) (dpth + 1) ?rs c))"
          using "1.IH"[OF False g[symmetric] Inr Some view1] by blast
        have res: "fst (resolveDependencyTree e packageName ver options dpth rslv w)
                     = Inr (DependencyNode packageName ver ?out)"
          using False g Inr Some
          by (subst resolveDependencyTree.simps) (simp add: case_prod_unfold)
        have "greedy_edges e V (effectiveMaxDepth options) dpth rslv
                (DependencyNode packageName ver ?out)"
        proof (cases "map_of (versions md) ver")
          case None
          with Some have "getDependencies vd = []"
            by (cases "getDependencies vd = []") (auto dest: versionsGet_deps)
          then have "?out = []" by (simp add: resolveDeps.simps)
          with False Vmd None show ?thesis
            by (subst greedy_edges.simps) (simp add: effectiveMaxDepth_def)
        next
          case own: (Some vd')
          then have "versionsGet md ver = Some vd'" by (rule versionsGet_own)
          with Some have "vd' = vd" by simp
          with False Vmd own ih show ?thesis
            by (subst greedy_edges.simps) (auto simp: effectiveMaxDepth_def)
        qed
        with res show ?thesis by simp
      qed
    qed
  qed
next
  case (2 e options dpth rslv resolvedDeps w)
  show ?case
    by (auto simp: resolveDeps.simps declared_edges_present_def)
next
  case (3 e options dpth rslv depName depRange rest resolvedDeps w)
  note view = \<open>cache_inv e V C w\<close>
  let ?maxD = "effectiveMaxDepth options"
  obtain r w1 where g: "getCachedMetadata e depName w = (r, w1)"
    by (cases "getCachedMetadata e depName w")
  note facts = getCachedMetadata_cases[OF g]
  have view1: "cache_inv e V C w1" by (rule getCachedMetadata_inv[OF g view])
  have skip: ?case
    if out: "fst (resolveDeps e options dpth rslv ((depName, depRange) # rest) resolvedDeps w)
               = fst (resolveDeps e options dpth rslv rest resolvedDeps w')"
      and ih: "fst ` set resolvedDeps \<subseteq> fst ` set (fst (resolveDeps e options dpth rslv rest resolvedDeps w')) \<and>
         declared_edges_present e V rest (fst ` set (fst (resolveDeps e options dpth rslv rest resolvedDeps w'))) \<and>
         (\<forall>(k, c) \<in> set (fst (resolveDeps e options dpth rslv rest resolvedDeps w')).
             (k, c) \<in> set resolvedDeps \<or>
             (edge_to_first_match e V rest k c \<and> greedy_edges e V ?maxD (dpth + 1) rslv c))"
      and none: "case V depName of None \<Rightarrow> True | Some mdk \<Rightarrow> spec_matching e mdk depRange = []"
    for w'
  proof -
    let ?o = "fst (resolveDeps e options dpth rslv rest resolvedDeps w')"
    from ih have a: "fst ` set resolvedDeps \<subseteq> fst ` set ?o" by blast
    from ih have "declared_edges_present e V rest (fst ` set ?o)" by blast
    then have b: "declared_edges_present e V ((depName, depRange) # rest) (fst ` set ?o)"
      using none by (intro declared_edges_present_Cons) (auto split: option.splits)
    from ih have c: "\<forall>(k, c) \<in> set ?o. (k, c) \<in> set resolvedDeps \<or>
             (edge_to_first_match e V ((depName, depRange) # rest) k c \<and>
              greedy_edges e V ?maxD (dpth + 1) rslv c)"
      using edge_to_first_match_Cons[of e V rest _ _ "(depName, depRange)"] by fast
    from a b c show ?thesis unfolding out by (intro conjI)
  qed
  show ?case
  proof (cases r)
    case (Inl err)
    have "V depName = None"
      using facts(3) Inl cache_inv_view[OF view] by (cases "V depName") auto
    moreover have "fst (resolveDeps e options dpth rslv ((depName, depRange) # rest) resolvedDeps w)
               = fst (resolveDeps e options dpth rslv rest resolvedDeps w1)"
      using g Inl by (subst resolveDeps.simps) simp
    ultimately show ?thesis
      using "3.IH"(1)[OF g[symmetric] Inl view1] by (intro skip) simp_all
  next
    case (Inr md)
    with facts(3)[of md] cache_inv_view[OF view] have Vmd: "V depName = Some md" by simp
    show ?thesis
    proof (cases "getMatchingVersions e md depRange")
      case Nil
      have "fst (resolveDeps e options dpth rslv ((depName, depRange) # rest) resolvedDeps w)
               = fst (resolveDeps e options dpth rslv rest resolvedDeps w1)"
        using g Inr Nil by (subst resolveDeps.simps) simp
      then show ?thesis
        using "3.IH"(2)[OF g[symmetric] Inr Nil view1] Vmd Nil
        by (intro skip) (simp_all add: getMatchingVersions_spec)
    next
      case (Cons v vs)
      let ?sub = "resolveDependencyTree e depName v options (dpth + 1) rslv w1"
      obtain r2 w2 where s: "?sub = (r2, w2)" by (cases ?sub)
      have view2: "cache_inv e V C w2"
        using resolve_ok(1)[OF view1, of depName v options "dpth + 1" rslv] s by simp
      have "v \<in> set (spec_matching e md depRange)"
        using Cons by (simp add: getMatchingVersions_spec)
      then have vkey: "v \<in> set (map fst (versions md))" by (simp add: spec_matching_set)
      from resolve_nested_ok[OF view1 Vmd vkey, of options "dpth + 1" rslv] s
      obtain t where r2: "r2 = Inr t" by auto
      from "3.IH"(3)[OF g[symmetric] Inr Cons view1] s r2
      have t_ok: "name t = depName" "version t = v" "greedy_edges e V ?maxD (dpth + 1) rslv t"
        by simp_all
      let ?acc = "map_set resolvedDeps depName t"
      let ?o = "fst (resolveDeps e options dpth rslv rest ?acc w2)"
      have out: "fst (resolveDeps e options dpth rslv ((depName, depRange) # rest) resolvedDeps w)
               = ?o"
        using g Inr Cons s r2 by (subst resolveDeps.simps) simp
      from "3.IH"(5)[OF g[symmetric] Inr Cons s[symmetric] r2 view2]
      have ih: "fst ` set ?acc \<subseteq> fst ` set ?o"
        "declared_edges_present e V rest (fst ` set ?o)"
        "\<forall>(k, c) \<in> set ?o. (k, c) \<in> set ?acc \<or>
             (edge_to_first_match e V rest k c \<and> greedy_edges e V ?maxD (dpth + 1) rslv c)"
        by blast+
      from ih(1) have a: "fst ` set resolvedDeps \<subseteq> fst ` set ?o" and here: "depName \<in> fst ` set ?o"
        by (auto simp: fst_set_map_set)
      have b: "declared_edges_present e V ((depName, depRange) # rest) (fst ` set ?o)"
        using ih(2) here by (intro declared_edges_present_Cons) (auto split: option.splits)
      have new: "edge_to_first_match e V ((depName, depRange) # rest) depName t"
        using Vmd Cons t_ok(1,2)
        by (intro edge_to_first_match_here[where v = v and vs = vs])
           (simp_all add: getMatchingVersions_spec)
      have c: "(k, c) \<in> set resolvedDeps \<or>
             (edge_to_first_match e V ((depName, depRange) # rest) k c \<and>
              greedy_edges e V ?maxD (dpth + 1) rslv c)" if "(k, c) \<in> set ?o" for k c
      proof -
        from ih(3) that have "(k, c) \<in> set ?acc \<or>
             (edge_to_first_match e V rest k c \<and> greedy_edges e V ?maxD (dpth + 1) rslv c)"
          by fast
        then show ?thesis
        proof
          assume "(k, c) \<in> set ?acc"
          then have "(k, c) = (depName, t) \<or> (k, c) \<in> set resolvedDeps" by (rule in_set_map_set)
          then show ?thesis using new t_ok(3) by auto
        next
          assume "edge_to_first_match e V rest k c \<and> greedy_edges e V ?maxD (dpth + 1) rslv c"
          then show ?thesis using edge_to_first_match_Cons by fast
        qed
      qed
      from a b c show ?thesis unfolding out by (intro conjI) fast+
    qed
  qed
qed

section \<open>Consumers\<close>

lemma drain_yields:
  "yields_ok e b V C P g c \<Longrightarrow> \<forall>x \<in> set (fst (drain g)). P x"
proof (induction g arbitrary: c)
  case (Yield x w k)
  from Yield.prems have "yields_ok e b V C P (k w) (treeCount w)" by simp
  from Yield.IH[OF _ this] Yield.prems show ?case
    by (simp add: case_prod_unfold)
qed simp_all

lemma exploreLoop_bound:
  "yields_ok e True V C P g c \<Longrightarrow> depth ctx = 0 \<Longrightarrow>
   int (length (fst (drain (exploreLoop nm ver ctx g)))) \<le> max 0 (maxTrees ctx - int c)"
proof (induction g arbitrary: c)
  case (Yield x w k)
  show ?case
  proof (cases "int (treeCount w) \<ge> maxTrees ctx")
    case True
    then show ?thesis by simp
  next
    case False
    let ?w' = "w\<lparr>treeCount := treeCount w + 1\<rparr>"
    from Yield.prems(1) have c: "treeCount w = c" and v: "cache_inv e V C w"
      and k: "\<And>w'. cache_inv e V C w' \<Longrightarrow> yields_ok e True V C P (k w') (treeCount w')"
      by simp_all
    have "yields_ok e True V C P (k ?w') (treeCount ?w')" using k[of ?w'] v by simp
    from Yield.IH[OF rangeI this Yield.prems(2)]
    have "int (length (fst (drain (exploreLoop nm ver ctx (k ?w'))))) \<le> max 0 (maxTrees ctx - int (c + 1))"
      using c by simp
    with False c Yield.prems(2) show ?thesis
      by (simp add: case_prod_unfold)
  qed
qed simp_all

lemma findTreeLoop_drain:
  "fst (findTreeLoop createHash lc alg targetHash g n) =
     (case List.find (\<lambda>t. hashTree createHash lc t alg = targetHash) (fst (drain g)) of
        Some t \<Rightarrow>
          Inr (Some \<lparr>tree = t, hash = targetHash,
                     treesExplored =
                       n + length (takeWhile (\<lambda>t. hashTree createHash lc t alg \<noteq> targetHash)
                                     (fst (drain g))) + 1\<rparr>)
      | None \<Rightarrow> (case fst (snd (drain g)) of None \<Rightarrow> Inr None | Some err \<Rightarrow> Inl err))"
proof (induction g arbitrary: n)
  case (Yield x w k)
  show ?case
    using Yield.IH[OF rangeI[of k w], of "n + 1"] by (simp add: case_prod_unfold split: option.splits)
qed simp_all

lemma insert_sorted_hd:
  assumes "total_preorder cmp" "sorted_wrt (\<lambda>a b. cmp a b \<le> 0) ys"
  shows "\<forall>z \<in> set (insert_sorted cmp x ys). cmp (hd (insert_sorted cmp x ys)) z \<le> 0"
proof -
  from assms(1) have refl: "\<And>a. cmp a a \<le> 0" unfolding total_preorder_def by blast
  have "sorted_wrt (\<lambda>a b. cmp a b \<le> 0) (insert_sorted cmp x ys)"
    using assms by (rule sorted_insert_sorted)
  moreover have "insert_sorted cmp x ys \<noteq> []" by (cases ys) auto
  ultimately show ?thesis
    using refl by (cases "insert_sorted cmp x ys") auto
qed

lemma array_sort_hd_least:
  assumes "total_preorder cmp" "z \<in> set (array_sort cmp xs)"
  shows "cmp (hd (array_sort cmp xs)) z \<le> 0"
proof -
  from assms(1) have refl: "\<And>a. cmp a a \<le> 0" unfolding total_preorder_def by blast
  have "sorted_wrt (\<lambda>a b. cmp a b \<le> 0) (array_sort cmp xs)"
    using assms(1) by (rule sorted_array_sort)
  with assms(2) refl show ?thesis
    by (cases "array_sort cmp xs") auto
qed

section \<open>The first answer of a generator\<close>

lemma yields_ok_first:
  assumes "yields_ok e True V C P g c"
  shows "g = Yield x w k \<Longrightarrow> treeCount w = c \<and> cache_inv e V C w"
    and "g = Throw err w \<Longrightarrow> treeCount w = c \<and> cache_inv e V C w"
  using assms by auto

lemma exploreTree_leaf_or_loop:
  obtains (leaf) w' where "exploreTree e pkgName pkgVersion ctx w = Yield (createEmptyNode pkgName pkgVersion) w' Done"
      "metadataView e w' = metadataView e w" "treeCount w' = treeCount w"
  | (throw) err w' where "exploreTree e pkgName pkgVersion ctx w = Throw err w'"
      "metadataView e w pkgName = None"
  | (loop) md vd w1 where
      "exploreTree e pkgName pkgVersion ctx w =
         exploreLoop pkgName pkgVersion ctx
           (generateDependencyCombinations e (map fst (getDependencies vd)) (getDependencies vd)
              (ctx\<lparr>resolving := insert (resolutionKey pkgName pkgVersion) (resolving ctx)\<rparr>) w1)"
      "metadataView e w pkgName = Some md" "map_of (versions md) pkgVersion = Some vd"
      "getDependencies vd \<noteq> []"
      "metadataView e w1 = metadataView e w" "treeCount w1 = treeCount w"
      "int (treeCount w) < maxTrees ctx" "int (depth ctx) \<le> maxDepth ctx"
      "getCachedMetadata e pkgName w = (Inr md, w1)"
      "\<not> (maxDepth ctx < int (depth ctx) \<or> maxTrees ctx \<le> int (treeCount w) \<or>
          resolutionKey pkgName pkgVersion \<in> resolving ctx)"
      "versionsGet md pkgVersion = Some vd"
proof (cases "int (depth ctx) > maxDepth ctx \<or> int (treeCount w) \<ge> maxTrees ctx
                  \<or> resolutionKey pkgName pkgVersion \<in> resolving ctx")
  case True
  then have "exploreTree e pkgName pkgVersion ctx w = Yield (createEmptyNode pkgName pkgVersion) w Done"
    by (subst exploreTree.simps) simp
  then show ?thesis by (rule leaf) simp_all
next
  case False
  obtain r w1 where g: "getCachedMetadata e pkgName w = (r, w1)"
    by (cases "getCachedMetadata e pkgName w")
  note facts = getCachedMetadata_cases[OF g]
  show ?thesis
  proof (cases r)
    case (Inl err)
    with False g have "exploreTree e pkgName pkgVersion ctx w = Throw err w1"
      by (subst exploreTree.simps) simp
    moreover have "metadataView e w pkgName = None"
      using facts(3) Inl by (cases "metadataView e w pkgName") auto
    ultimately show ?thesis by (rule throw)
  next
    case (Inr md)
    with facts(3)[of md] have Vmd: "metadataView e w pkgName = Some md" by simp
    show ?thesis
    proof (cases "versionsGet md pkgVersion")
      case None
      with False g Inr
      have "exploreTree e pkgName pkgVersion ctx w = Yield (createEmptyNode pkgName pkgVersion) w1 Done"
        by (subst exploreTree.simps) simp
      then show ?thesis using facts(1,2) by (rule leaf)
    next
      case (Some vd)
      show ?thesis
      proof (cases "getDependencies vd = []")
        case True
        with False g Inr Some
        have "exploreTree e pkgName pkgVersion ctx w = Yield (createEmptyNode pkgName pkgVersion) w1 Done"
          by (subst exploreTree.simps) simp
        then show ?thesis using facts(1,2) by (rule leaf)
      next
        case nonempty: False
        with False g Inr Some
        have "exploreTree e pkgName pkgVersion ctx w =
           exploreLoop pkgName pkgVersion ctx
             (generateDependencyCombinations e (map fst (getDependencies vd)) (getDependencies vd)
                (ctx\<lparr>resolving := insert (resolutionKey pkgName pkgVersion) (resolving ctx)\<rparr>) w1)"
          by (subst exploreTree.simps) simp
        then show ?thesis
          using Vmd Some versionsGet_deps[OF Some nonempty] nonempty facts(1,2) False g Inr
          by (intro loop) simp_all
      qed
    qed
  qed
qed

lemma exploreTree_root_bound:
  assumes "depth ctx = 0"
  shows "int (length (fst (drain (exploreTree e pkgName pkgVersion ctx w))))
           \<le> max 1 (maxTrees ctx - int (treeCount w))"
proof (cases rule: exploreTree_leaf_or_loop[of e pkgName pkgVersion ctx w])
  case (leaf w')
  then show ?thesis by simp
next
  case (throw err w')
  then show ?thesis by simp
next
  case (loop md vd w1)
  let ?ctx' = "ctx\<lparr>resolving := insert (resolutionKey pkgName pkgVersion) (resolving ctx)\<rparr>"
  have "yields_ok e True (metadataView e w1) (metadataCache w1)
          (combo_ok e (metadataView e w1) top3 (depthBudget (maxDepth ?ctx') (depth ?ctx' + 1) + 1)
             (map fst (getDependencies vd)) (getDependencies vd))
          (generateDependencyCombinations e (map fst (getDependencies vd)) (getDependencies vd) ?ctx' w1)
          (treeCount w1)"
    by (rule explore_ok(2)) simp
  from exploreLoop_bound[OF this assms, of pkgName pkgVersion] loop(1,6)
  show ?thesis by simp
qed

lemma yielding_simps [simp]:
  "yielding (Yield x w k)" "\<not> yielding (Done w)" "\<not> yielding (Throw err w)"
  by (simp_all add: yielding_def)

lemma finished_simps [simp]:
  "\<not> finished (Yield x w k)" "finished (Done w)" "\<not> finished (Throw err w)"
  by (simp_all add: finished_def)

lemma yielding_not_finished: "yielding g \<Longrightarrow> \<not> finished g"
  by (cases g) simp_all

lemma yielding_genAppend: "yielding g \<Longrightarrow> yielding (genAppend g f)"
  by (cases g) simp_all

lemma yielding_genMap: "yielding g \<Longrightarrow> yielding (genMap f g)"
  by (cases g) simp_all

lemma yielding_genCatch: "yielding g \<Longrightarrow> yielding (genCatch g h)"
  by (cases g) simp_all

lemma explore_starts:
  shows "yielding (exploreTree e pkgName pkgVersion ctx w) \<or>
         ((\<exists>err w'. exploreTree e pkgName pkgVersion ctx w = Throw err w') \<and>
          metadataView e w pkgName = None)"
    and "int (treeCount w) < maxTrees ctx \<Longrightarrow>
         yielding (generateDependencyCombinations e depNames allDeps ctx w)"
    and "int (treeCount w) < maxTrees ctx \<Longrightarrow> vs \<noteq> [] \<Longrightarrow>
         \<not> finished (exploreVersions e currentDep remainingDeps allDeps ctx vs w)"
proof (induction e pkgName pkgVersion ctx w and e depNames allDeps ctx w
         and e currentDep remainingDeps allDeps ctx vs w
       rule: exploreTree_generateDependencyCombinations_exploreVersions.induct)
  case (1 e pkgName pkgVersion ctx w)
  show ?case
  proof (cases rule: exploreTree_leaf_or_loop[of e pkgName pkgVersion ctx w])
    case (leaf w')
    then show ?thesis by simp
  next
    case (throw err w')
    then show ?thesis by simp
  next
    case (loop md vd w1)
    let ?ctx' = "ctx\<lparr>resolving := insert (resolutionKey pkgName pkgVersion) (resolving ctx)\<rparr>"
    let ?g = "generateDependencyCombinations e (map fst (getDependencies vd)) (getDependencies vd) ?ctx' w1"
    have ne: "map fst (getDependencies vd) \<noteq> []" using loop(4) by simp
    have "yielding ?g"
      using "1.IH"[OF loop(10) loop(9)[symmetric] refl loop(11) ne] loop(6,7) by simp
    then obtain x w2 k where gy: "?g = Yield x w2 k" by (cases ?g) simp_all
    have "yields_ok e True (metadataView e w1) (metadataCache w1)
          (combo_ok e (metadataView e w1) top3 (depthBudget (maxDepth ?ctx') (depth ?ctx' + 1) + 1)
             (map fst (getDependencies vd)) (getDependencies vd)) ?g (treeCount w1)"
      by (rule explore_ok(2)) simp
    from yields_ok_first(1)[OF this gy] loop(6,7) have "int (treeCount w2) < maxTrees ctx" by simp
    with loop(1) gy show ?thesis by simp
  qed
next
  case (2 e allDeps ctx w)
  then show ?case by (subst generateDependencyCombinations.simps) simp
next
  case (3 e currentDep remainingDeps allDeps ctx w)
  note budget = \<open>int (treeCount w) < maxTrees ctx\<close>
  obtain r w1 where g: "getCachedMetadata e currentDep w = (r, w1)"
    by (cases "getCachedMetadata e currentDep w")
  note facts = getCachedMetadata_cases[OF g]
  have budget1: "int (treeCount w1) < maxTrees ctx" using facts(2) budget by simp
  let ?ms = "\<lambda>md. take 3 (case map_of allDeps currentDep of None \<Rightarrow> []
                        | Some depRange \<Rightarrow> getMatchingVersions e md depRange)"
  have handler: "yielding (generateDependencyCombinations e remainingDeps allDeps ctx w')"
    if "int (treeCount w') < maxTrees ctx" for w'
    using "3.IH"(3)[OF that] .
  show ?case
  proof (cases r)
    case (Inl err)
    with g handler[OF budget1] show ?thesis
      by (subst generateDependencyCombinations.simps) simp
  next
    case (Inr md)
    with facts(3)[of md] have Vmd: "metadataView e w currentDep = Some md" by simp
    show ?thesis
    proof (cases "?ms md = []")
      case True
      with g Inr "3.IH"(1)[OF g[symmetric] Inr True budget1] show ?thesis
        by (subst generateDependencyCombinations.simps) (simp add: yielding_genCatch)
    next
      case False
      let ?v = "exploreVersions e currentDep remainingDeps allDeps ctx (?ms md) w1"
      from False obtain rng where rng: "map_of allDeps currentDep = Some rng"
        by (cases "map_of allDeps currentDep") auto
      have ex: "\<exists>r mdk. (currentDep, r) \<in> set allDeps \<and> metadataView e w1 currentDep = Some mdk \<and>
              set (?ms md) \<subseteq> top3 (getMatchingVersions e mdk r)"
        using rng Vmd map_of_SomeD[OF rng] facts(1) by (auto simp: top3_def)
      have ok: "yields_ok e True (metadataView e w1) (metadataCache w1)
              (combo_ok e (metadataView e w1) top3 (depthBudget (maxDepth ctx) (depth ctx + 1) + 1)
                 (currentDep # remainingDeps) allDeps) ?v (treeCount w1)"
        by (rule explore_ok(3)[OF cache_inv_self ex])
      have nf: "\<not> finished ?v"
        using "3.IH"(2)[OF g[symmetric] Inr False budget1 False] .
      have "yielding (genCatch ?v (\<lambda>w'. generateDependencyCombinations e remainingDeps allDeps ctx w'))"
      proof (cases ?v)
        case (Done w')
        with nf show ?thesis by simp
      next
        case (Throw err w')
        from yields_ok_first(2)[OF ok Throw] budget1
        have "int (treeCount w') < maxTrees ctx" by simp
        from handler[OF this] Throw show ?thesis by simp
      next
        case (Yield x w' k)
        then show ?thesis by simp
      qed
      with g Inr False show ?thesis
        by (subst generateDependencyCombinations.simps) simp
    qed
  qed
next
  case (4 e currentDep remainingDeps allDeps ctx w)
  then show ?case by simp
next
  case (5 e currentDep remainingDeps allDeps ctx depVersion moreVersions w)
  note budget = \<open>int (treeCount w) < maxTrees ctx\<close>
  then have nb: "\<not> maxTrees ctx \<le> int (treeCount w)" by simp
  let ?ctx1 = "ctx\<lparr>depth := depth ctx + 1\<rparr>"
  let ?t = "exploreTree e currentDep depVersion ?ctx1 w"
  let ?f = "\<lambda>resolvedDep w'.
                   genMap (\<lambda>remainingCombination.
                             map_set remainingCombination currentDep resolvedDep)
                     (generateDependencyCombinations e remainingDeps allDeps ctx w')"
  have ok: "yields_ok e (0 < depth ?ctx1) (metadataView e w) (metadataCache w)
              (tree_ok e (metadataView e w) top3 (depthBudget (maxDepth ?ctx1) (depth ?ctx1) + 1)
                 currentDep depVersion) ?t (treeCount w)"
    by (rule explore_ok(1)) simp
  have "\<not> finished (genFlatMap ?t ?f)"
  proof (cases ?t)
    case (Done w')
    with "5.IH"(1)[OF nb] show ?thesis by simp
  next
    case (Throw err w')
    then show ?thesis by simp
  next
    case (Yield x w' k)
    from ok Yield have "treeCount w' = treeCount w" by simp
    with budget have "int (treeCount w') < maxTrees ctx" by simp
    from "5.IH"(2)[OF nb this]
    have "yielding (?f x w')" by (rule yielding_genMap)
    then have "yielding (genFlatMap ?t ?f)"
      using Yield by (simp add: yielding_genAppend)
    then show ?thesis by (rule yielding_not_finished)
  qed
  then have "\<not> finished (genAppend (genFlatMap ?t ?f)
             (\<lambda>w'. exploreVersions e currentDep remainingDeps allDeps ctx moreVersions w'))"
    by (cases "genFlatMap ?t ?f") simp_all
  with nb show ?case
    by (subst exploreVersions.simps) simp
qed

section \<open>The generators follow the enumeration of the specification\<close>

lemma tracks_exhausted: "\<not> int c < m \<Longrightarrow> tracks e V C m g c xs"
  by (cases g) simp_all

lemma tracks_genAppend:
  "yields_ok e True V C P g c \<Longrightarrow> tracks e V C m g c xs \<Longrightarrow>
   (\<And>w. cache_inv e V C w \<Longrightarrow> tracks e V C m (f w) (treeCount w) ys) \<Longrightarrow>
   tracks e V C m (genAppend g f) c (xs @ ys)"
proof (induction g arbitrary: c xs)
  case (Done w)
  show ?case
  proof (cases "int c < m")
    case True
    with Done show ?thesis by auto
  next
    case False
    then show ?thesis by (rule tracks_exhausted)
  qed
next
  case (Throw err w)
  then show ?case by simp
next
  case (Yield x w k)
  show ?case
  proof (cases "int c < m")
    case False
    then show ?thesis by (rule tracks_exhausted)
  next
    case True
    with Yield.prems(2) obtain rest where xs: "xs = x # rest"
      and k: "\<And>w'. cache_inv e V C w' \<Longrightarrow> tracks e V C m (k w') (treeCount w') rest"
      by (cases xs) auto
    have "tracks e V C m (genAppend (k w') f) (treeCount w') (rest @ ys)"
      if "cache_inv e V C w'" for w'
    proof (rule Yield.IH[OF rangeI _ k[OF that] Yield.prems(3)])
      show "yields_ok e True V C P (k w') (treeCount w')"
        using Yield.prems(1) that by simp
    qed
    with True xs show ?thesis by simp
  qed
qed

lemma tracks_genMap:
  "tracks e V C m g c xs \<Longrightarrow> tracks e V C m (genMap f g) c (map f xs)"
proof (induction g arbitrary: c xs)
  case (Yield x w k)
  show ?case
  proof (cases "int c < m")
    case False
    then show ?thesis by (rule tracks_exhausted)
  next
    case True
    with Yield.prems obtain rest where xs: "xs = x # rest"
      and k: "\<And>w'. cache_inv e V C w' \<Longrightarrow> tracks e V C m (k w') (treeCount w') rest"
      by (cases xs) auto
    from Yield.IH[OF rangeI k] True xs show ?thesis by simp
  qed
qed simp_all

lemma tracks_genCatch:
  "tracks e V C m g c xs \<Longrightarrow> tracks e V C m (genCatch g h) c xs"
proof (induction g arbitrary: c xs)
  case (Throw err w)
  then have "\<not> int c < m" by simp
  then show ?case by (rule tracks_exhausted)
next
  case (Yield x w k)
  show ?case
  proof (cases "int c < m")
    case False
    then show ?thesis by (rule tracks_exhausted)
  next
    case True
    with Yield.prems obtain rest where xs: "xs = x # rest"
      and k: "\<And>w'. cache_inv e V C w' \<Longrightarrow> tracks e V C m (k w') (treeCount w') rest"
      by (cases xs) auto
    from Yield.IH[OF rangeI k] True xs show ?thesis by simp
  qed
qed simp_all

lemma tracks_genFlatMap:
  assumes "yields_ok e True V C P g c" "tracks e V C m g c xs"
    and "\<And>x w. cache_inv e V C w \<Longrightarrow> P x \<Longrightarrow>
           yields_ok e True V C Q (f x w) (treeCount w) \<and>
           tracks e V C m (f x w) (treeCount w) (F x)"
  shows "tracks e V C m (genFlatMap g f) c (concat (map F xs))"
  using assms(1,2)
proof (induction g arbitrary: c xs)
  case (Done w)
  then show ?case by auto
next
  case (Throw err w)
  then show ?case by simp
next
  case (Yield x w k)
  show ?case
  proof (cases "int c < m")
    case False
    then show ?thesis by (rule tracks_exhausted)
  next
    case True
    with Yield.prems(2) obtain rest where xs: "xs = x # rest"
      and k: "\<And>w'. cache_inv e V C w' \<Longrightarrow> tracks e V C m (k w') (treeCount w') rest"
      by (cases xs) auto
    from Yield.prems(1) have inv: "cache_inv e V C w" and cnt: "treeCount w = c" and px: "P x"
      and yk: "\<And>w'. cache_inv e V C w' \<Longrightarrow> yields_ok e True V C P (k w') (treeCount w')"
      by simp_all
    from assms(3)[OF inv px] cnt
    have fy: "yields_ok e True V C Q (f x w) c" and ft: "tracks e V C m (f x w) c (F x)"
      by simp_all
    have "tracks e V C m (genAppend (f x w) (\<lambda>w'. genFlatMap (k w') f)) c
            (F x @ concat (map F rest))"
      by (rule tracks_genAppend[OF fy ft]) (rule Yield.IH[OF rangeI yk k])
    with xs show ?thesis by simp
  qed
qed

lemma tracks_exploreLoop:
  "yields_ok e True V C P g c \<Longrightarrow> tracks e V C (maxTrees ctx) g c xs \<Longrightarrow> depth ctx \<noteq> 0 \<Longrightarrow>
   tracks e V C (maxTrees ctx) (exploreLoop nm ver ctx g) c (map (DependencyNode nm ver) xs)"
proof (induction g arbitrary: c xs)
  case (Yield x w k)
  show ?case
  proof (cases "int c < maxTrees ctx")
    case False
    then show ?thesis by (rule tracks_exhausted)
  next
    case True
    with Yield.prems(2) obtain rest where xs: "xs = x # rest"
      and k: "\<And>w'. cache_inv e V C w' \<Longrightarrow> tracks e V C (maxTrees ctx) (k w') (treeCount w') rest"
      by (cases xs) auto
    from Yield.prems(1) have cnt: "treeCount w = c"
      and yk: "\<And>w'. cache_inv e V C w' \<Longrightarrow> yields_ok e True V C P (k w') (treeCount w')"
      by simp_all
    from Yield.IH[OF rangeI yk k Yield.prems(3)] True xs cnt Yield.prems(3)
    show ?thesis by simp
  qed
qed simp_all

lemma exploreLoop_root_tracks:
  "yields_ok e True V C P g c \<Longrightarrow> tracks e V C (maxTrees ctx) g c xs \<Longrightarrow> depth ctx = 0 \<Longrightarrow>
   fst (drain (exploreLoop nm ver ctx g))
     = take (nat (maxTrees ctx - int c)) (map (DependencyNode nm ver) xs)"
proof (induction g arbitrary: c xs)
  case (Done w)
  then show ?case by (cases "int c < maxTrees ctx") auto
next
  case (Throw err w)
  then show ?case by simp
next
  case (Yield x w k)
  from Yield.prems(1) have inv: "cache_inv e V C w" and cnt: "treeCount w = c"
    and yk: "\<And>w'. cache_inv e V C w' \<Longrightarrow> yields_ok e True V C P (k w') (treeCount w')"
    by simp_all
  show ?case
  proof (cases "int c < maxTrees ctx")
    case False
    with cnt show ?thesis by simp
  next
    case True
    with Yield.prems(2) obtain rest where xs: "xs = x # rest"
      and k: "\<And>w'. cache_inv e V C w' \<Longrightarrow> tracks e V C (maxTrees ctx) (k w') (treeCount w') rest"
      by (cases xs) auto
    let ?w = "w\<lparr>treeCount := treeCount w + 1\<rparr>"
    have inv': "cache_inv e V C ?w" using inv by simp
    from Yield.IH[OF rangeI yk[OF inv'] k[OF inv'] Yield.prems(3)]
    have "fst (drain (exploreLoop nm ver ctx (k ?w)))
            = take (nat (maxTrees ctx - int (c + 1))) (map (DependencyNode nm ver) rest)"
      using cnt by simp
    moreover have "nat (maxTrees ctx - int c) = Suc (nat (maxTrees ctx - int (c + 1)))"
      using True by simp
    ultimately show ?thesis
      using True xs cnt Yield.prems(3) by (simp add: case_prod_unfold)
  qed
qed

lemma explore_inv:
  shows "cache_inv e V C w \<Longrightarrow>
         yields_ok e (0 < depth ctx) V C (\<lambda>_. True) (exploreTree e pkgName pkgVersion ctx w) (treeCount w)"
    and "cache_inv e V C w \<Longrightarrow>
         yields_ok e True V C (\<lambda>_. True) (generateDependencyCombinations e depNames allDeps ctx w) (treeCount w)"
  using explore_ok(1)[of e V C w ctx pkgName pkgVersion] explore_ok(2)[of e V C w ctx depNames allDeps]
  by (auto intro: yields_ok_mono)

lemma tracks_leaf:
  "tracks e V C m (Yield x w Done) c [x]"
  by simp

lemma explore_tracks:
  shows "cache_inv e V C w \<Longrightarrow> 0 < depth ctx \<Longrightarrow> V pkgName \<noteq> None \<Longrightarrow>
         tracks e V C (maxTrees ctx) (exploreTree e pkgName pkgVersion ctx w) (treeCount w)
           (spec_trees e V (maxDepth ctx) (depth ctx) (resolving ctx) pkgName pkgVersion)"
    and "cache_inv e V C w \<Longrightarrow>
         tracks e V C (maxTrees ctx) (generateDependencyCombinations e depNames allDeps ctx w)
           (treeCount w)
           (spec_combinations e V (maxDepth ctx) (depth ctx) (resolving ctx) depNames allDeps)"
    and "cache_inv e V C w \<Longrightarrow> V currentDep \<noteq> None \<Longrightarrow>
         tracks e V C (maxTrees ctx) (exploreVersions e currentDep remainingDeps allDeps ctx vs w)
           (treeCount w)
           (concat (map (\<lambda>v'.
              concat (map (\<lambda>t.
                map (\<lambda>children. map_set children currentDep t)
                  (spec_combinations e V (maxDepth ctx) (depth ctx) (resolving ctx) remainingDeps allDeps))
                (spec_trees e V (maxDepth ctx) (depth ctx + 1) (resolving ctx) currentDep v')))
              vs))"
proof (induction e pkgName pkgVersion ctx w and e depNames allDeps ctx w
         and e currentDep remainingDeps allDeps ctx vs w
       arbitrary: V and V and V
       rule: exploreTree_generateDependencyCombinations_exploreVersions.induct)
  case (1 e pkgName pkgVersion ctx w)
  note view = \<open>cache_inv e V C w\<close>
  note deep = \<open>0 < depth ctx\<close>
  let ?leaf = "createEmptyNode pkgName pkgVersion"
  let ?spec = "spec_trees e V (maxDepth ctx) (depth ctx) (resolving ctx) pkgName pkgVersion"
  show ?case
  proof (cases "int (treeCount w) < maxTrees ctx")
    case False
    then show ?thesis by (rule tracks_exhausted)
  next
    case budget: True
    show ?thesis
    proof (cases "int (depth ctx) > maxDepth ctx \<or> resolutionKey pkgName pkgVersion \<in> resolving ctx")
      case True
      then have "exploreTree e pkgName pkgVersion ctx w = Yield ?leaf w Done"
        by (subst exploreTree.simps) auto
      moreover from True have "?spec = [?leaf]"
        by (subst spec_trees.simps) auto
      ultimately show ?thesis by simp
    next
      case False
      with budget have guard: "\<not> (int (depth ctx) > maxDepth ctx \<or> int (treeCount w) \<ge> maxTrees ctx
                  \<or> resolutionKey pkgName pkgVersion \<in> resolving ctx)" by simp
      obtain r w1 where g: "getCachedMetadata e pkgName w = (r, w1)"
        by (cases "getCachedMetadata e pkgName w")
      note facts = getCachedMetadata_cases[OF g]
      have view1: "cache_inv e V C w1" and cnt1: "treeCount w1 = treeCount w"
        using getCachedMetadata_inv[OF g view] facts(2) by simp_all
      from \<open>V pkgName \<noteq> None\<close> obtain md where Vmd: "V pkgName = Some md" by auto
      with facts(3)[of md] cache_inv_view[OF view] have r: "r = Inr md" by simp
      show ?thesis
      proof (cases "versionsGet md pkgVersion")
        case None
        then have "map_of (versions md) pkgVersion = None"
          by (simp add: versionsGet_def split: option.splits)
        with False Vmd have "?spec = [?leaf]"
          by (subst spec_trees.simps) auto
        moreover from guard g r None
        have "exploreTree e pkgName pkgVersion ctx w = Yield ?leaf w1 Done"
          by (subst exploreTree.simps) simp
        ultimately show ?thesis by simp
      next
        case (Some vd)
        show ?thesis
        proof (cases "getDependencies vd = []")
          case True
          have "?spec = [?leaf]"
          proof (cases "map_of (versions md) pkgVersion")
            case None
            with False Vmd show ?thesis by (subst spec_trees.simps) auto
          next
            case (Some vd')
            then have "versionsGet md pkgVersion = Some vd'" by (rule versionsGet_own)
            with \<open>versionsGet md pkgVersion = Some vd\<close> have "vd' = vd" by simp
            with Some True False Vmd show ?thesis by (subst spec_trees.simps) auto
          qed
          moreover from guard g r Some True
          have "exploreTree e pkgName pkgVersion ctx w = Yield ?leaf w1 Done"
            by (subst exploreTree.simps) simp
          ultimately show ?thesis by simp
        next
          case nonempty: False
          then have ne: "map fst (getDependencies vd) \<noteq> []" by simp
          have own: "map_of (versions md) pkgVersion = Some vd"
            by (rule versionsGet_deps[OF Some nonempty])
          let ?ctx' = "ctx\<lparr>resolving := insert (resolutionKey pkgName pkgVersion) (resolving ctx)\<rparr>"
          let ?g = "generateDependencyCombinations e (map fst (getDependencies vd))
                      (getDependencies vd) ?ctx' w1"
          let ?combos = "spec_combinations e V (maxDepth ctx) (depth ctx)
                           (insert (resolutionKey pkgName pkgVersion) (resolving ctx))
                           (map fst (getDependencies vd)) (getDependencies vd)"
          have ih: "tracks e V C (maxTrees ctx) ?g (treeCount w1) ?combos"
            using "1.IH"[OF guard g[symmetric] r Some ne view1] by simp
          have inv: "yields_ok e True V C (\<lambda>_. True) ?g (treeCount w1)"
            by (rule explore_inv(2)[OF view1])
          have "tracks e V C (maxTrees ctx) (exploreLoop pkgName pkgVersion ctx ?g) (treeCount w1)
                  (map (DependencyNode pkgName pkgVersion) ?combos)"
            using inv ih deep by (intro tracks_exploreLoop) simp_all
          moreover from guard g r Some ne
          have "exploreTree e pkgName pkgVersion ctx w = exploreLoop pkgName pkgVersion ctx ?g"
            by (subst exploreTree.simps) simp
          moreover from False Vmd own nonempty
          have "?spec = map (DependencyNode pkgName pkgVersion) ?combos"
            by (subst spec_trees.simps) auto
          ultimately show ?thesis using cnt1 by simp
        qed
      qed
    qed
  qed
next
  case (2 e allDeps ctx w)
  show ?case
    by (simp add: generateDependencyCombinations.simps spec_combinations.simps)
next
  case (3 e currentDep remainingDeps allDeps ctx w)
  note view = \<open>cache_inv e V C w\<close>
  let ?spec = "spec_combinations e V (maxDepth ctx) (depth ctx) (resolving ctx)
                 (currentDep # remainingDeps) allDeps"
  let ?rest = "spec_combinations e V (maxDepth ctx) (depth ctx) (resolving ctx) remainingDeps allDeps"
  let ?h = "\<lambda>w'. generateDependencyCombinations e remainingDeps allDeps ctx w'"
  obtain r w1 where g: "getCachedMetadata e currentDep w = (r, w1)"
    by (cases "getCachedMetadata e currentDep w")
  note facts = getCachedMetadata_cases[OF g]
  have view1: "cache_inv e V C w1" and cnt1: "treeCount w1 = treeCount w"
    using getCachedMetadata_inv[OF g view] facts(2) by simp_all
  show ?case
  proof (cases r)
    case (Inl err)
    have Vnone: "V currentDep = None"
      using facts(3) Inl cache_inv_view[OF view] by (cases "V currentDep") auto
    then have "?spec = ?rest" by (subst spec_combinations.simps) simp
    moreover have "generateDependencyCombinations e (currentDep # remainingDeps) allDeps ctx w
                     = ?h w1"
      using g Inl by (subst generateDependencyCombinations.simps) simp
    moreover have "tracks e V C (maxTrees ctx) (?h w1) (treeCount w1) ?rest"
      by (rule "3.IH"(3)[OF view1])
    ultimately show ?thesis using cnt1 by simp
  next
    case (Inr md)
    with facts(3)[of md] cache_inv_view[OF view] have Vmd: "V currentDep = Some md" by simp
    let ?vs = "take 3 (case map_of allDeps currentDep of None \<Rightarrow> []
                        | Some depRange \<Rightarrow> getMatchingVersions e md depRange)"
    have vs_spec: "?vs = take 3 (case map_of allDeps currentDep of None \<Rightarrow> []
                        | Some r \<Rightarrow> spec_matching e md r)"
      by (simp add: getMatchingVersions_spec cong: option.case_cong)
    show ?thesis
    proof (cases "?vs = []")
      case True
      then have "?spec = ?rest"
        using Vmd vs_spec by (subst spec_combinations.simps) simp
      moreover have "generateDependencyCombinations e (currentDep # remainingDeps) allDeps ctx w
                     = genCatch (generateDependencyCombinations e remainingDeps allDeps ctx w1) ?h"
        using g Inr True by (subst generateDependencyCombinations.simps) simp
      moreover have "tracks e V C (maxTrees ctx)
                       (genCatch (generateDependencyCombinations e remainingDeps allDeps ctx w1) ?h)
                       (treeCount w1) ?rest"
        by (rule tracks_genCatch) (rule "3.IH"(1)[OF g[symmetric] Inr True view1])
      ultimately show ?thesis using cnt1 by simp
    next
      case False
      then obtain v vs' where vv: "?vs = v # vs'" by (cases ?vs) auto
      with vs_spec have svv: "take 3 (case map_of allDeps currentDep of None \<Rightarrow> []
                        | Some r \<Rightarrow> spec_matching e md r) = v # vs'" by simp
      let ?alts = "\<lambda>vs. concat (map (\<lambda>v'.
              concat (map (\<lambda>t.
                map (\<lambda>children. map_set children currentDep t) ?rest)
                (spec_trees e V (maxDepth ctx) (depth ctx + 1) (resolving ctx) currentDep v')))
              vs)"
      have "?spec = ?alts (v # vs')"
        by (subst spec_combinations.simps) (simp add: Vmd svv)
      moreover have "generateDependencyCombinations e (currentDep # remainingDeps) allDeps ctx w
                     = genCatch (exploreVersions e currentDep remainingDeps allDeps ctx ?vs w1) ?h"
        using g Inr False by (subst generateDependencyCombinations.simps) simp
      moreover have "tracks e V C (maxTrees ctx)
                       (genCatch (exploreVersions e currentDep remainingDeps allDeps ctx ?vs w1) ?h)
                       (treeCount w1) (?alts ?vs)"
        by (rule tracks_genCatch) (rule "3.IH"(2)[OF g[symmetric] Inr False view1], simp add: Vmd)
      ultimately show ?thesis using cnt1 vv by simp
    qed
  qed
next
  case (4 e currentDep remainingDeps allDeps ctx w)
  show ?case
    by (simp add: exploreVersions.simps)
next
  case (5 e currentDep remainingDeps allDeps ctx depVersion moreVersions w)
  note view = \<open>cache_inv e V C w\<close>
  note Vk = \<open>V currentDep \<noteq> None\<close>
  show ?case
  proof (cases "int (treeCount w) < maxTrees ctx")
    case False
    then show ?thesis by (rule tracks_exhausted)
  next
    case True
    then have guard: "\<not> maxTrees ctx \<le> int (treeCount w)" by simp
    let ?ctx1 = "ctx\<lparr>depth := depth ctx + 1\<rparr>"
    let ?rest = "spec_combinations e V (maxDepth ctx) (depth ctx) (resolving ctx) remainingDeps allDeps"
    let ?F = "\<lambda>t. map (\<lambda>children. map_set children currentDep t) ?rest"
    let ?f = "\<lambda>resolvedDep w'.
                   genMap (\<lambda>remainingCombination.
                             map_set remainingCombination currentDep resolvedDep)
                     (generateDependencyCombinations e remainingDeps allDeps ctx w')"
    let ?et = "exploreTree e currentDep depVersion ?ctx1 w"
    let ?more = "\<lambda>w'. exploreVersions e currentDep remainingDeps allDeps ctx moreVersions w'"
    have e1: "yields_ok e True V C (\<lambda>_. True) ?et (treeCount w)"
      using explore_inv(1)[OF view, of ?ctx1 currentDep depVersion] by simp
    have t1: "tracks e V C (maxTrees ctx) ?et (treeCount w)
                (spec_trees e V (maxDepth ctx) (depth ctx + 1) (resolving ctx) currentDep depVersion)"
      using "5.IH"(1)[OF guard view] Vk by simp
    have inner: "yields_ok e True V C (\<lambda>_. True) (?f x w') (treeCount w') \<and>
                 tracks e V C (maxTrees ctx) (?f x w') (treeCount w') (?F x)"
      if "cache_inv e V C w'" for x w'
    proof
      show "yields_ok e True V C (\<lambda>_. True) (?f x w') (treeCount w')"
        by (rule yields_ok_genMap[OF explore_inv(2)[OF that]]) simp
      show "tracks e V C (maxTrees ctx) (?f x w') (treeCount w') (?F x)"
        by (rule tracks_genMap) (rule "5.IH"(2)[OF guard that])
    qed
    have fm_y: "yields_ok e True V C (\<lambda>_. True) (genFlatMap ?et ?f) (treeCount w)"
      by (rule yields_ok_genFlatMap[OF e1]) (use inner in blast)
    have fm_t: "tracks e V C (maxTrees ctx) (genFlatMap ?et ?f) (treeCount w)
                  (concat (map ?F
                     (spec_trees e V (maxDepth ctx) (depth ctx + 1) (resolving ctx) currentDep depVersion)))"
      by (rule tracks_genFlatMap[OF e1 t1]) (use inner in blast)
    have "tracks e V C (maxTrees ctx) (genAppend (genFlatMap ?et ?f) ?more) (treeCount w)
            (concat (map ?F
                 (spec_trees e V (maxDepth ctx) (depth ctx + 1) (resolving ctx) currentDep depVersion))
             @ concat (map (\<lambda>v'. concat (map ?F
                 (spec_trees e V (maxDepth ctx) (depth ctx + 1) (resolving ctx) currentDep v')))
               moreVersions))"
      by (rule tracks_genAppend[OF fm_y fm_t]) (rule "5.IH"(3)[OF guard], assumption, rule Vk)
    with guard show ?thesis
      by (subst exploreVersions.simps) simp
  qed
qed

lemma exploreTree_root_spec:
  assumes "depth ctx = 0" "resolving ctx = {}" "treeCount w = 0" "0 < maxTrees ctx"
  shows "fst (drain (exploreTree e pkgName pkgVersion ctx w))
           = take (nat (maxTrees ctx))
               (spec_trees e (metadataView e w) (maxDepth ctx) 0 {} pkgName pkgVersion)"
proof -
  let ?V = "metadataView e w"
  let ?C = "metadataCache w"
  let ?leaf = "createEmptyNode pkgName pkgVersion"
  let ?spec = "spec_trees e ?V (maxDepth ctx) 0 {} pkgName pkgVersion"
  have view: "cache_inv e ?V ?C w" by simp
  have one: "take (nat (maxTrees ctx)) [?leaf] = [?leaf]"
    using assms(4) by (cases "nat (maxTrees ctx)") auto
  show ?thesis
  proof (cases "0 > maxDepth ctx")
    case True
    with assms have "exploreTree e pkgName pkgVersion ctx w = Yield ?leaf w Done"
      by (subst exploreTree.simps) auto
    moreover from True have "?spec = [?leaf]"
      by (subst spec_trees.simps) auto
    ultimately show ?thesis using one by simp
  next
    case False
    with assms have guard: "\<not> (int (depth ctx) > maxDepth ctx \<or> int (treeCount w) \<ge> maxTrees ctx
                  \<or> resolutionKey pkgName pkgVersion \<in> resolving ctx)" by simp
    from False have sguard: "\<not> (int 0 > maxDepth ctx \<or> resolutionKey pkgName pkgVersion \<in> {})"
      by simp
    obtain r w1 where g: "getCachedMetadata e pkgName w = (r, w1)"
      by (cases "getCachedMetadata e pkgName w")
    note facts = getCachedMetadata_cases[OF g]
    have view1: "cache_inv e ?V ?C w1" and cnt1: "treeCount w1 = 0"
      using getCachedMetadata_inv[OF g view] facts(2) assms(3) by simp_all
    show ?thesis
    proof (cases r)
      case (Inl err)
      have Vnone: "?V pkgName = None"
        using facts(3) Inl by (cases "?V pkgName") auto
      with sguard have "?spec = []" by (subst spec_trees.simps) simp
      moreover from guard g Inl
      have "exploreTree e pkgName pkgVersion ctx w = Throw err w1"
        by (subst exploreTree.simps) simp
      ultimately show ?thesis by simp
    next
      case (Inr md)
      with facts(3)[of md] have Vmd: "?V pkgName = Some md" by simp
      show ?thesis
      proof (cases "versionsGet md pkgVersion")
        case None
        then have "map_of (versions md) pkgVersion = None"
          by (simp add: versionsGet_def split: option.splits)
        with sguard Vmd have "?spec = [?leaf]"
          by (subst spec_trees.simps) simp
        moreover from guard g Inr None
        have "exploreTree e pkgName pkgVersion ctx w = Yield ?leaf w1 Done"
          by (subst exploreTree.simps) simp
        ultimately show ?thesis using one by simp
      next
        case (Some vd)
        show ?thesis
        proof (cases "getDependencies vd = []")
          case True
          have "?spec = [?leaf]"
          proof (cases "map_of (versions md) pkgVersion")
            case None
            with sguard Vmd show ?thesis by (subst spec_trees.simps) simp
          next
            case (Some vd')
            then have "versionsGet md pkgVersion = Some vd'" by (rule versionsGet_own)
            with \<open>versionsGet md pkgVersion = Some vd\<close> have "vd' = vd" by simp
            with Some True sguard Vmd show ?thesis by (subst spec_trees.simps) simp
          qed
          moreover from guard g Inr Some True
          have "exploreTree e pkgName pkgVersion ctx w = Yield ?leaf w1 Done"
            by (subst exploreTree.simps) simp
          ultimately show ?thesis using one by simp
        next
          case nonempty: False
          then have ne: "map fst (getDependencies vd) \<noteq> []" by simp
          have own: "map_of (versions md) pkgVersion = Some vd"
            by (rule versionsGet_deps[OF Some nonempty])
          let ?ctx' = "ctx\<lparr>resolving := insert (resolutionKey pkgName pkgVersion) (resolving ctx)\<rparr>"
          let ?g = "generateDependencyCombinations e (map fst (getDependencies vd))
                      (getDependencies vd) ?ctx' w1"
          let ?combos = "spec_combinations e ?V (maxDepth ctx) 0
                           (insert (resolutionKey pkgName pkgVersion) {})
                           (map fst (getDependencies vd)) (getDependencies vd)"
          have tr: "tracks e ?V ?C (maxTrees ctx) ?g (treeCount w1) ?combos"
            using explore_tracks(2)[OF view1, of ?ctx' "map fst (getDependencies vd)" "getDependencies vd"]
              assms(1,2) by simp
          have inv: "yields_ok e True ?V ?C (\<lambda>_. True) ?g (treeCount w1)"
            by (rule explore_inv(2)[OF view1])
          have "fst (drain (exploreLoop pkgName pkgVersion ctx ?g))
                  = take (nat (maxTrees ctx - int (treeCount w1)))
                      (map (DependencyNode pkgName pkgVersion) ?combos)"
            using inv tr assms(1) by (rule exploreLoop_root_tracks)
          moreover from guard g Inr Some ne
          have "exploreTree e pkgName pkgVersion ctx w = exploreLoop pkgName pkgVersion ctx ?g"
            by (subst exploreTree.simps) simp
          moreover from sguard Vmd own nonempty
          have "?spec = map (DependencyNode pkgName pkgVersion) ?combos"
            by (subst spec_trees.simps) simp
          ultimately show ?thesis using cnt1 by simp
        qed
      qed
    qed
  qed
qed

lemma generateAllPossibleTrees_spec:
  assumes "0 < (case maxTreesArg of None \<Rightarrow> 1000 | Some m \<Rightarrow> m)"
  shows "fst (drain (generateAllPossibleTrees e packageName ver options maxTreesArg w))
           = take (nat (case maxTreesArg of None \<Rightarrow> 1000 | Some m \<Rightarrow> m))
               (spec_trees e (metadataView e w) (effectiveMaxDepth options) 0 {} packageName ver)"
  using exploreTree_root_spec[of "rootContext options maxTreesArg" "w\<lparr>treeCount := 0\<rparr>"
      e packageName ver] assms
  by (simp add: generateAllPossibleTrees_def rootContext_def effectiveMaxDepth_def)


section \<open>The example registries\<close>

lemma fixture_drain:
  "fst (drain (generateAllPossibleTrees fixture ''A'' ''1.0.0'' defaultOptions (Some 10) emptyWorld))
     = [treeWithB ''1.1.0'', treeWithB ''1.0.0'']"
  by code_simp

lemma fixture_drain_err:
  "fst (snd (drain (generateAllPossibleTrees fixture ''A'' ''1.0.0'' defaultOptions (Some 10) emptyWorld)))
     = None"
  by code_simp

lemma wide_drain:
  "fst (drain (generateAllPossibleTrees wideFixture ''A'' ''1.0.0'' defaultOptions (Some 10) emptyWorld))
     = [treeWithB ''1.3.0'', treeWithB ''1.2.0'', treeWithB ''1.1.0'']"
  by code_simp

lemma fixture_greedy:
  "fst (resolveDependencyTree fixture ''A'' ''1.0.0'' defaultOptions 0 {} emptyWorld)
     = Inr (treeWithB ''1.1.0'')"
  by code_simp

lemma cyclic_greedy:
  "fst (resolveDependencyTree cyclicFixture ''A'' ''1.0.0'' defaultOptions 0 {} emptyWorld)
     = Inr cyclicTree"
  by code_simp

lemma deep_greedy:
  "fst (resolveDependencyTree deepFixture ''A'' ''1.0.0'' defaultOptions 0 {} emptyWorld)
     = Inr deepGreedyTree"
  by code_simp

lemma deep_drain:
  "fst (drain (generateAllPossibleTrees deepFixture ''A'' ''1.0.0'' defaultOptions (Some 10) emptyWorld))
     = [deepTree ''1.0.5'' ''1.1.0'', deepTree ''1.0.5'' ''1.0.0'',
        deepTree ''1.0.0'' ''1.1.0'', deepTree ''1.0.0'' ''1.0.0'']"
  by code_simp

lemma deep_drain3:
  "fst (drain (generateAllPossibleTrees deepFixture ''A'' ''1.0.0'' defaultOptions (Some 3) emptyWorld))
     = [deepTree ''1.0.5'' ''1.1.0'', deepTree ''1.0.5'' ''1.0.0'',
        deepTree ''1.0.0'' ''1.1.0'']"
  by code_simp

lemma total_preorder_deepRcompare: "total_preorder (rcompare deepFixture)"
  by (auto simp: total_preorder_def deepFixture_def deepRcompare_def sgn_if split: if_splits)

lemma deep_spec:
  "spec_trees deepFixture deepRegistry 10 0 {} ''A'' ''1.0.0''
     = [deepTree ''1.0.5'' ''1.1.0'', deepTree ''1.0.5'' ''1.0.0'',
        deepTree ''1.0.0'' ''1.1.0'', deepTree ''1.0.0'' ''1.0.0'']"
  by code_simp

lemma deep_view: "metadataView deepFixture emptyWorld = deepRegistry"
  by (rule ext) (simp add: metadataView_def emptyWorld_def deepFixture_def)

lemma deep_not_greedy:
  "\<not> greedy_edges deepFixture deepRegistry 10 0 {}
       (DependencyNode ''A'' ''1.0.0'' [(''B'', DependencyNode ''B'' ''1.0.5'' [])])"
  "\<not> greedy_edges deepFixture deepRegistry 10 0 {}
       (DependencyNode ''A'' ''1.0.0''
          [(''B'', DependencyNode ''B'' ''1.1.0'' []),
           (''C'', DependencyNode ''C'' ''1.0.0'' [(''D'', DependencyNode ''D'' ''1.1.0'' [])])])"
  "\<not> greedy_edges deepFixture deepRegistry 10 0 {}
       (DependencyNode ''A'' ''1.0.0''
          [(''B'', DependencyNode ''B'' ''1.0.5'' []),
           (''C'', DependencyNode ''C'' ''1.0.0'' [(''D'', DependencyNode ''D'' ''1.0.0'' [])])])"
  by code_simp+


lemma serialize_treeWithB:
  "serializeTree lc (treeWithB ver) = ''A@1.0.0'' @ [CHR 0x0A] @ ''  B@'' @ ver"
  by (simp add: serializeTree_def treeWithB_def serialize_node array_sort_def)

section \<open>Version choice\<close>

lemma fixture_view_A: "metadataView fixture emptyWorld ''A'' = Some fixtureMetadataA"
  by (simp add: metadataView_def emptyWorld_def fixture_def fixtureRegistry_def)

lemma getMatchingVersions_sorted:
  "total_preorder (rcompare e) \<Longrightarrow>
   sorted_wrt (\<lambda>a b. rcompare e a b \<le> 0) (getMatchingVersions e md r)"
  unfolding getMatchingVersions_def by (rule sorted_array_sort)

lemma getMatchingVersions_hd_highest:
  "total_preorder (rcompare e) \<Longrightarrow> v \<in> set (getMatchingVersions e md r) \<Longrightarrow>
   rcompare e (hd (getMatchingVersions e md r)) v \<le> 0"
  unfolding getMatchingVersions_def by (rule array_sort_hd_least)

lemma total_preorder_fixtureRcompare: "total_preorder (rcompare fixture)"
  by (auto simp: total_preorder_def fixture_def fixtureRcompare_def sgn_if split: if_splits)

lemma spec_matching_sorted:
  "total_preorder (rcompare e) \<Longrightarrow>
   sorted_wrt (\<lambda>a b. rcompare e a b \<le> 0) (spec_matching e md r)"
  unfolding spec_matching_def by (rule sorted_array_sort)

lemma spec_matching_hd_highest:
  "total_preorder (rcompare e) \<Longrightarrow> v \<in> set (spec_matching e md r) \<Longrightarrow>
   rcompare e (hd (spec_matching e md r)) v \<le> 0"
  unfolding spec_matching_def by (rule array_sort_hd_least)

lemma spec_matching_deepB:
  "spec_matching deepFixture deepMetadataB ''~1.0.0'' = [''1.0.5'', ''1.0.0'']"
  by code_simp

text \<open>
  C1. With a positive \<^verbatim>\<open>maxTrees\<close>, the trees that \<^verbatim>\<open>generateAllPossibleTrees\<close> yields are, in
  this order, the first \<^verbatim>\<open>maxTrees\<close> trees of the enumeration \<open>spec_trees\<close>: at every node the
  versions explored for a dependency are the first three of the versions matching its range,
  highest first, and the trees with a higher version of a dependency come before those with
  a lower one. The versions matching a range are the known versions that satisfy it, and
  \<open>rcompare\<close> sorts them. Every yielded tree carries the requested name and version at its
  root, and each of its edges leads to one of the first three of \<^verbatim>\<open>getMatchingVersions\<close>. In the
  fixture (A@1.0.0 depends on B ^1.0.0; B has 1.0.0 and 1.1.0) the generator with
  \<^verbatim>\<open>maxTrees = 10\<close> yields two trees, B@1.1.0 before B@1.0.0; with four matching versions of B
  it yields the three highest, in descending order; in the registry with two dependencies and
  a nested one it yields the four combinations, and the first three of them with
  \<^verbatim>\<open>maxTrees = 3\<close>.
\<close>

theorem exhaustive_explores_top3:
  "(0 < (case maxTreesArg of None \<Rightarrow> 1000 | Some m \<Rightarrow> m) \<longrightarrow>
      fst (drain (generateAllPossibleTrees e packageName ver options maxTreesArg w))
        = take (nat (case maxTreesArg of None \<Rightarrow> 1000 | Some m \<Rightarrow> m))
            (spec_trees e (metadataView e w) (effectiveMaxDepth options) 0 {} packageName ver)) \<and>
   (\<forall>t \<in> set (fst (drain (generateAllPossibleTrees e packageName ver options maxTreesArg w))).
      name t = packageName \<and> version t = ver \<and> edges_ok e (metadataView e w) top3 t) \<and>
   (\<forall>md r. getMatchingVersions e md r = spec_matching e md r \<and>
      set (spec_matching e md r) = {v \<in> set (map fst (versions md)). satisfies e v r}) \<and>
   (total_preorder (rcompare e) \<longrightarrow>
      (\<forall>md r. sorted_wrt (\<lambda>a b. rcompare e a b \<le> 0) (spec_matching e md r))) \<and>
   fst (drain (generateAllPossibleTrees fixture ''A'' ''1.0.0'' defaultOptions (Some 10) emptyWorld))
     = [treeWithB ''1.1.0'', treeWithB ''1.0.0''] \<and>
   fst (drain (generateAllPossibleTrees wideFixture ''A'' ''1.0.0'' defaultOptions (Some 10) emptyWorld))
     = [treeWithB ''1.3.0'', treeWithB ''1.2.0'', treeWithB ''1.1.0''] \<and>
   fst (drain (generateAllPossibleTrees deepFixture ''A'' ''1.0.0'' defaultOptions (Some 10) emptyWorld))
     = [deepTree ''1.0.5'' ''1.1.0'', deepTree ''1.0.5'' ''1.0.0'',
        deepTree ''1.0.0'' ''1.1.0'', deepTree ''1.0.0'' ''1.0.0''] \<and>
   fst (drain (generateAllPossibleTrees deepFixture ''A'' ''1.0.0'' defaultOptions (Some 3) emptyWorld))
     = [deepTree ''1.0.5'' ''1.1.0'', deepTree ''1.0.5'' ''1.0.0'', deepTree ''1.0.0'' ''1.1.0'']"
proof -
  let ?ctx = "\<lparr>depth = 0, resolving = {},
        maxDepth = (case optMaxDepth options of None \<Rightarrow> 10 | Some m \<Rightarrow> m),
        maxTrees = (case maxTreesArg of None \<Rightarrow> 1000 | Some m \<Rightarrow> m)\<rparr>"
  have refine: "0 < (case maxTreesArg of None \<Rightarrow> 1000 | Some m \<Rightarrow> m) \<longrightarrow>
      fst (drain (generateAllPossibleTrees e packageName ver options maxTreesArg w))
        = take (nat (case maxTreesArg of None \<Rightarrow> 1000 | Some m \<Rightarrow> m))
            (spec_trees e (metadataView e w) (effectiveMaxDepth options) 0 {} packageName ver)"
    using generateAllPossibleTrees_spec[of maxTreesArg e packageName ver options w] by blast
  have "yields_ok e (0 < depth ?ctx) (metadataView e w) (metadataCache w)
          (tree_ok e (metadataView e w) top3 (depthBudget (maxDepth ?ctx) (depth ?ctx) + 1) packageName ver)
          (exploreTree e packageName ver ?ctx (w\<lparr>treeCount := 0\<rparr>)) (treeCount (w\<lparr>treeCount := 0\<rparr>))"
    by (rule explore_ok(1)) simp
  from drain_yields[OF this]
  have general: "\<forall>t \<in> set (fst (drain (generateAllPossibleTrees e packageName ver options maxTreesArg w))).
      name t = packageName \<and> version t = ver \<and> edges_ok e (metadataView e w) top3 t"
    by (simp add: generateAllPossibleTrees_def tree_ok_def)
  have matcher: "\<forall>md r. getMatchingVersions e md r = spec_matching e md r \<and>
      set (spec_matching e md r) = {v \<in> set (map fst (versions md)). satisfies e v r}"
    using getMatchingVersions_spec[of e] spec_matching_set[of e] by blast
  have srt: "total_preorder (rcompare e) \<longrightarrow>
      (\<forall>md r. sorted_wrt (\<lambda>a b. rcompare e a b \<le> 0) (spec_matching e md r))"
    using spec_matching_sorted[of e] by blast
  from refine general matcher srt fixture_drain wide_drain deep_drain deep_drain3 show ?thesis
    by (intro conjI)
qed

theorem exhaustive_explores_top3_witness:
  "total_preorder (rcompare deepFixture) \<and>
   spec_trees deepFixture deepRegistry 10 0 {} ''A'' ''1.0.0''
     = [deepTree ''1.0.5'' ''1.1.0'', deepTree ''1.0.5'' ''1.0.0'',
        deepTree ''1.0.0'' ''1.1.0'', deepTree ''1.0.0'' ''1.0.0''] \<and>
   fst (drain (generateAllPossibleTrees deepFixture ''A'' ''1.0.0'' defaultOptions (Some 3) emptyWorld))
     = take 3 (spec_trees deepFixture deepRegistry 10 0 {} ''A'' ''1.0.0'') \<and>
   spec_matching deepFixture deepMetadataB ''~1.0.0'' = [''1.0.5'', ''1.0.0''] \<and>
   sorted_wrt (\<lambda>a b. rcompare deepFixture a b \<le> 0) (spec_matching deepFixture deepMetadataB ''~1.0.0'') \<and>
   total_preorder (rcompare fixture) \<and>
   edges_ok fixture (metadataView fixture emptyWorld) top3 (treeWithB ''1.1.0'') \<and>
   edges_ok fixture (metadataView fixture emptyWorld) top3 (treeWithB ''1.0.0'') \<and>
   sorted_wrt (\<lambda>a b. rcompare fixture a b \<le> 0) (getMatchingVersions fixture fixtureMetadataB ''^1.0.0'')"
proof -
  note th0 = exhaustive_explores_top3[of "Some 3" deepFixture "''A''" "''1.0.0''" defaultOptions emptyWorld]
  note th1 = exhaustive_explores_top3[of "Some 10" fixture "''A''" "''1.0.0''" defaultOptions emptyWorld]
  from th0 have "fst (drain (generateAllPossibleTrees deepFixture ''A'' ''1.0.0'' defaultOptions (Some 3) emptyWorld))
     = take (nat 3) (spec_trees deepFixture (metadataView deepFixture emptyWorld)
          (effectiveMaxDepth defaultOptions) 0 {} ''A'' ''1.0.0'')"
    by simp
  then have a: "fst (drain (generateAllPossibleTrees deepFixture ''A'' ''1.0.0'' defaultOptions (Some 3) emptyWorld))
     = take 3 (spec_trees deepFixture deepRegistry 10 0 {} ''A'' ''1.0.0'')"
    by (simp add: deep_view effectiveMaxDepth_def defaultOptions_def)
  from th0 total_preorder_deepRcompare
  have b: "sorted_wrt (\<lambda>a b. rcompare deepFixture a b \<le> 0) (spec_matching deepFixture deepMetadataB ''~1.0.0'')"
    by blast
  from th1 have "\<forall>t \<in> set [treeWithB ''1.1.0'', treeWithB ''1.0.0''].
      edges_ok fixture (metadataView fixture emptyWorld) top3 t"
    by (metis (no_types, lifting))
  then have c: "edges_ok fixture (metadataView fixture emptyWorld) top3 (treeWithB ''1.1.0'')"
    "edges_ok fixture (metadataView fixture emptyWorld) top3 (treeWithB ''1.0.0'')"
    by simp_all
  from th1 have "getMatchingVersions fixture fixtureMetadataB ''^1.0.0''
                   = spec_matching fixture fixtureMetadataB ''^1.0.0''"
    by blast
  moreover from th1 total_preorder_fixtureRcompare
  have "sorted_wrt (\<lambda>a b. rcompare fixture a b \<le> 0) (spec_matching fixture fixtureMetadataB ''^1.0.0'')"
    by blast
  ultimately have d: "sorted_wrt (\<lambda>a b. rcompare fixture a b \<le> 0)
      (getMatchingVersions fixture fixtureMetadataB ''^1.0.0'')"
    by simp
  from total_preorder_deepRcompare deep_spec a spec_matching_deepB b total_preorder_fixtureRcompare c d
  show ?thesis by (intro conjI)
qed

text \<open>
  C4. Whatever the package and version, a tree returned by \<^verbatim>\<open>resolveDependencyTree\<close> has
  the requested name and version at its root, and at every node that is not a placeholder:
  every declared dependency whose metadata is available and whose range has a match has an
  edge, and every edge belongs to a declared dependency and leads to the first of the
  versions matching its range, a version that satisfies the range (\<open>greedy_edges\<close>). The
  versions matching a range are the known versions that satisfy it, and none of them exceeds
  the first under \<^verbatim>\<open>rcompare\<close>. In the fixture the greedy resolution of A@1.0.0 is the tree
  that serializes to \<^verbatim>\<open>A@1.0.0\<close>, newline, \<^verbatim>\<open>  B@1.1.0\<close>; in the registry with two dependencies
  and a nested one it takes B@1.0.5, the highest version satisfying \<^verbatim>\<open>~1.0.0\<close>, and below C
  the version 1.1.0 of D.
\<close>

theorem greedy_picks_first_match:
  "(\<forall>t. fst (resolveDependencyTree e packageName ver options dpth rslv w) = Inr t \<longrightarrow>
      name t = packageName \<and> version t = ver \<and>
      greedy_edges e (metadataView e w) (effectiveMaxDepth options) dpth rslv t \<and>
      edges_ok e (metadataView e w) top1 t) \<and>
   (\<forall>md r. getMatchingVersions e md r = spec_matching e md r \<and>
      set (spec_matching e md r) = {v \<in> set (map fst (versions md)). satisfies e v r}) \<and>
   (total_preorder (rcompare e) \<longrightarrow>
      (\<forall>md r. \<forall>v \<in> set (spec_matching e md r). rcompare e (hd (spec_matching e md r)) v \<le> 0)) \<and>
   fst (resolveDependencyTree fixture ''A'' ''1.0.0'' defaultOptions 0 {} emptyWorld)
     = Inr (treeWithB ''1.1.0'') \<and>
   serializeTree lc (treeWithB ''1.1.0'') = ''A@1.0.0'' @ [CHR 0x0A] @ ''  B@1.1.0'' \<and>
   fst (resolveDependencyTree deepFixture ''A'' ''1.0.0'' defaultOptions 0 {} emptyWorld)
     = Inr deepGreedyTree"
proof -
  have general: "\<forall>t. fst (resolveDependencyTree e packageName ver options dpth rslv w) = Inr t \<longrightarrow>
      name t = packageName \<and> version t = ver \<and>
      greedy_edges e (metadataView e w) (effectiveMaxDepth options) dpth rslv t \<and>
      edges_ok e (metadataView e w) top1 t"
    using resolve_ok(1)[where e = e and w = w and V = "metadataView e w" and C = "metadataCache w", OF cache_inv_self,
        of packageName ver options dpth rslv]
      resolve_picks(1)[where e = e and w = w and V = "metadataView e w" and C = "metadataCache w", OF cache_inv_self,
        of packageName ver options dpth rslv]
    by (simp add: tree_ok_def)
  have matcher: "\<forall>md r. getMatchingVersions e md r = spec_matching e md r \<and>
      set (spec_matching e md r) = {v \<in> set (map fst (versions md)). satisfies e v r}"
    using getMatchingVersions_spec[of e] spec_matching_set[of e] by blast
  have highest: "total_preorder (rcompare e) \<longrightarrow>
      (\<forall>md r. \<forall>v \<in> set (spec_matching e md r). rcompare e (hd (spec_matching e md r)) v \<le> 0)"
    using spec_matching_hd_highest[of e] by blast
  have ser: "serializeTree lc (treeWithB ''1.1.0'') = ''A@1.0.0'' @ [CHR 0x0A] @ ''  B@1.1.0''"
    using serialize_treeWithB[of lc "''1.1.0''"] by simp
  from general matcher highest fixture_greedy ser deep_greedy show ?thesis
    by (intro conjI)
qed

theorem greedy_picks_first_match_witness:
  "total_preorder (rcompare deepFixture) \<and>
   fst (resolveDependencyTree deepFixture ''A'' ''1.0.0'' defaultOptions 0 {} emptyWorld)
     = Inr deepGreedyTree \<and>
   greedy_edges deepFixture deepRegistry 10 0 {} deepGreedyTree \<and>
   \<not> greedy_edges deepFixture deepRegistry 10 0 {}
       (DependencyNode ''A'' ''1.0.0'' [(''B'', DependencyNode ''B'' ''1.0.5'' [])]) \<and>
   \<not> greedy_edges deepFixture deepRegistry 10 0 {}
       (DependencyNode ''A'' ''1.0.0''
          [(''B'', DependencyNode ''B'' ''1.1.0'' []),
           (''C'', DependencyNode ''C'' ''1.0.0'' [(''D'', DependencyNode ''D'' ''1.1.0'' [])])]) \<and>
   spec_matching deepFixture deepMetadataB ''~1.0.0'' = [''1.0.5'', ''1.0.0''] \<and>
   rcompare deepFixture (hd (spec_matching deepFixture deepMetadataB ''~1.0.0'')) ''1.0.0'' \<le> 0 \<and>
   total_preorder (rcompare fixture) \<and>
   fst (resolveDependencyTree fixture ''A'' ''1.0.0'' defaultOptions 0 {} emptyWorld)
     = Inr (treeWithB ''1.1.0'') \<and>
   edges_ok fixture (metadataView fixture emptyWorld) top1 (treeWithB ''1.1.0'')"
proof -
  note th0 = greedy_picks_first_match[of deepFixture "''A''" "''1.0.0''" defaultOptions 0 "{}" emptyWorld]
  note th1 = greedy_picks_first_match[of fixture "''A''" "''1.0.0''" defaultOptions 0 "{}" emptyWorld]
  from th0 have a: "fst (resolveDependencyTree deepFixture ''A'' ''1.0.0'' defaultOptions 0 {} emptyWorld)
     = Inr deepGreedyTree" by blast
  with th0 have "greedy_edges deepFixture (metadataView deepFixture emptyWorld)
      (effectiveMaxDepth defaultOptions) 0 {} deepGreedyTree"
    by blast
  then have b: "greedy_edges deepFixture deepRegistry 10 0 {} deepGreedyTree"
    by (simp add: deep_view effectiveMaxDepth_def defaultOptions_def)
  have "''1.0.0'' \<in> set (spec_matching deepFixture deepMetadataB ''~1.0.0'')"
    by (simp add: spec_matching_deepB)
  with th0 total_preorder_deepRcompare
  have c: "rcompare deepFixture (hd (spec_matching deepFixture deepMetadataB ''~1.0.0'')) ''1.0.0'' \<le> 0"
    by blast
  from th1 have d: "fst (resolveDependencyTree fixture ''A'' ''1.0.0'' defaultOptions 0 {} emptyWorld)
     = Inr (treeWithB ''1.1.0'')" by blast
  with th1 have e: "edges_ok fixture (metadataView fixture emptyWorld) top1 (treeWithB ''1.1.0'')"
    by blast
  from total_preorder_deepRcompare a b deep_not_greedy(1,2) spec_matching_deepB c
    total_preorder_fixtureRcompare d e
  show ?thesis by (intro conjI)
qed

section \<open>The budget\<close>

text \<open>
  C2 (as stated). With \<^verbatim>\<open>maxTrees = 0\<close> the generator yields one tree, not at most zero.
\<close>

theorem max_trees_zero_counterexample:
  "\<not> int (length (fst (drain (generateAllPossibleTrees fixture ''A'' ''1.0.0'' defaultOptions
                                 (Some 0) emptyWorld)))) \<le> 0"
  by code_simp

text \<open>
  C2 (amended). For every positive \<open>k\<close>, \<^verbatim>\<open>generateAllPossibleTrees\<close> with \<^verbatim>\<open>maxTrees = k\<close>
  yields at most \<open>k\<close> trees, whatever the package, version, options, registry and cache; with
  \<^verbatim>\<open>maxTrees \<le> 0\<close> it yields exactly one tree, the placeholder leaf of the root.
\<close>

theorem max_trees_respected:
  "(0 < k \<longrightarrow>
      int (length (fst (drain (generateAllPossibleTrees e packageName ver options (Some k) w)))) \<le> k) \<and>
   (k \<le> 0 \<longrightarrow>
      fst (drain (generateAllPossibleTrees e packageName ver options (Some k) w))
        = [createEmptyNode packageName ver])"
proof -
  let ?ctx = "\<lparr>depth = 0, resolving = {},
        maxDepth = (case optMaxDepth options of None \<Rightarrow> 10 | Some m \<Rightarrow> m),
        maxTrees = k\<rparr>"
  have bound: "int (length (fst (drain (exploreTree e packageName ver ?ctx (w\<lparr>treeCount := 0\<rparr>)))))
                 \<le> max 1 (maxTrees ?ctx - int (treeCount (w\<lparr>treeCount := 0\<rparr>)))"
    by (rule exploreTree_root_bound) simp
  have zero: "exploreTree e packageName ver ?ctx (w\<lparr>treeCount := 0\<rparr>)
                = Yield (createEmptyNode packageName ver) (w\<lparr>treeCount := 0\<rparr>) Done" if "k \<le> 0"
    using that by (subst exploreTree.simps) simp
  show ?thesis
    using bound zero by (auto simp: generateAllPossibleTrees_def)
qed

theorem max_trees_respected_witness:
  "(0::int) < 1 \<and>
   int (length (fst (drain (generateAllPossibleTrees fixture ''A'' ''1.0.0'' defaultOptions
                              (Some 1) emptyWorld)))) \<le> 1"
  using max_trees_respected[of 1 fixture "''A''" "''1.0.0''" defaultOptions emptyWorld]
  by simp

section \<open>The search driver\<close>

lemma fixture_find_options:
  "optMaxTrees defaultFindOptions = None" "optAlgorithm defaultFindOptions = None"
  by (simp_all add: defaultFindOptions_def)

lemma fixture_drain_find:
  "fst (drain (generateAllPossibleTrees fixture ''A'' ''1.0.0''
                 (ResolverOptions.truncate defaultFindOptions) (Some 1000) emptyWorld))
   = [treeWithB ''1.1.0'', treeWithB ''1.0.0'']"
  "fst (snd (drain (generateAllPossibleTrees fixture ''A'' ''1.0.0''
                 (ResolverOptions.truncate defaultFindOptions) (Some 1000) emptyWorld)))
   = None"
  by code_simp+

lemma findTreeByHash_drain:
  "fst (findTreeByHash e createHash lc packageName ver targetHash options w) =
     (let alg = (case optAlgorithm options of None \<Rightarrow> Sha256 | Some a \<Rightarrow> a);
          run = drain (generateAllPossibleTrees e packageName ver (ResolverOptions.truncate options)
                         (Some (case optMaxTrees options of None \<Rightarrow> 1000 | Some m \<Rightarrow> m)) w)
      in case List.find (\<lambda>t. hashTree createHash lc t alg = targetHash) (fst run) of
           Some t \<Rightarrow>
             Inr (Some \<lparr>tree = t, hash = targetHash,
                        treesExplored =
                          length (takeWhile (\<lambda>t. hashTree createHash lc t alg \<noteq> targetHash) (fst run))
                            + 1\<rparr>)
         | None \<Rightarrow> (case fst (snd run) of None \<Rightarrow> Inr None | Some err \<Rightarrow> Inl err))"
  unfolding findTreeByHash_def Let_def by (subst findTreeLoop_drain) (simp split: option.splits)

lemma hashTree_treeWithB:
  "hashTree createHash lc (treeWithB v) alg = createHash alg (''A@1.0.0'' @ [CHR 0x0A] @ ''  B@'' @ v)"
  by (simp add: hashTree_def serialize_treeWithB)

text \<open>
  C9. \<^verbatim>\<open>findTreeByHash\<close> takes the candidates in the order of their generation and returns
  the first one whose hash is the target, with the hash and with the number of candidates
  taken so far, that one included; when no candidate matches and the generator ends, it
  returns \<^verbatim>\<open>null\<close>, and the generator's error if it ended with one. In the fixture, for a
  digest that tells the two serializations apart, the target hash of \<^verbatim>\<open>A@1.0.0\<close>, newline,
  \<^verbatim>\<open>  B@1.0.0\<close> returns that tree with \<^verbatim>\<open>treesExplored = 2\<close>.
\<close>

theorem findTreeByHash_first_match:
  "fst (findTreeByHash e createHash lc packageName ver targetHash options w) =
     (let alg = (case optAlgorithm options of None \<Rightarrow> Sha256 | Some a \<Rightarrow> a);
          run = drain (generateAllPossibleTrees e packageName ver (ResolverOptions.truncate options)
                         (Some (case optMaxTrees options of None \<Rightarrow> 1000 | Some m \<Rightarrow> m)) w)
      in case List.find (\<lambda>t. hashTree createHash lc t alg = targetHash) (fst run) of
           Some t \<Rightarrow>
             Inr (Some \<lparr>tree = t, hash = targetHash,
                        treesExplored =
                          length (takeWhile (\<lambda>t. hashTree createHash lc t alg \<noteq> targetHash) (fst run))
                            + 1\<rparr>)
         | None \<Rightarrow> (case fst (snd run) of None \<Rightarrow> Inr None | Some err \<Rightarrow> Inl err)) \<and>
   (createHash Sha256 (''A@1.0.0'' @ [CHR 0x0A] @ ''  B@1.1.0'')
      \<noteq> createHash Sha256 (''A@1.0.0'' @ [CHR 0x0A] @ ''  B@1.0.0'') \<longrightarrow>
    fst (findTreeByHash fixture createHash lc ''A'' ''1.0.0''
           (createHash Sha256 (''A@1.0.0'' @ [CHR 0x0A] @ ''  B@1.0.0'')) defaultFindOptions emptyWorld)
      = Inr (Some \<lparr>tree = treeWithB ''1.0.0'',
                   hash = createHash Sha256 (''A@1.0.0'' @ [CHR 0x0A] @ ''  B@1.0.0''),
                   treesExplored = 2\<rparr>))"
proof -
  have fixture_case: "fst (findTreeByHash fixture createHash lc ''A'' ''1.0.0''
           (createHash Sha256 (''A@1.0.0'' @ [CHR 0x0A] @ ''  B@1.0.0'')) defaultFindOptions emptyWorld)
      = Inr (Some \<lparr>tree = treeWithB ''1.0.0'',
                   hash = createHash Sha256 (''A@1.0.0'' @ [CHR 0x0A] @ ''  B@1.0.0''),
                   treesExplored = 2\<rparr>)"
    if "createHash Sha256 (''A@1.0.0'' @ [CHR 0x0A] @ ''  B@1.1.0'')
      \<noteq> createHash Sha256 (''A@1.0.0'' @ [CHR 0x0A] @ ''  B@1.0.0'')"
    using that
    by (subst findTreeByHash_drain)
       (simp add: fixture_find_options fixture_drain_find hashTree_treeWithB)
  from findTreeByHash_drain[of e createHash lc packageName ver targetHash options w] fixture_case
  show ?thesis by (intro conjI impI)
qed

theorem findTreeByHash_first_match_witness:
  "toyDigest Sha256 (''A@1.0.0'' @ [CHR 0x0A] @ ''  B@1.1.0'')
      \<noteq> toyDigest Sha256 (''A@1.0.0'' @ [CHR 0x0A] @ ''  B@1.0.0'') \<and>
   fst (findTreeByHash fixture toyDigest codeUnitCompare ''A'' ''1.0.0''
           (toyDigest Sha256 (''A@1.0.0'' @ [CHR 0x0A] @ ''  B@1.0.0'')) defaultFindOptions emptyWorld)
      = Inr (Some \<lparr>tree = treeWithB ''1.0.0'',
                   hash = toyDigest Sha256 (''A@1.0.0'' @ [CHR 0x0A] @ ''  B@1.0.0''),
                   treesExplored = 2\<rparr>)"
proof -
  have ne: "toyDigest Sha256 (''A@1.0.0'' @ [CHR 0x0A] @ ''  B@1.1.0'')
      \<noteq> toyDigest Sha256 (''A@1.0.0'' @ [CHR 0x0A] @ ''  B@1.0.0'')"
    by (simp add: toyDigest_def)
  from findTreeByHash_first_match[of fixture toyDigest codeUnitCompare "''A''" "''1.0.0''"
      "toyDigest Sha256 (''A@1.0.0'' @ [CHR 0x0A] @ ''  B@1.0.0'')" defaultFindOptions emptyWorld,
      THEN conjunct2, THEN mp, OF ne] ne
  show ?thesis by (intro conjI)
qed

section \<open>The root of the search\<close>

lemma generateAllPossibleTrees_root:
  "generateAllPossibleTrees e packageName ver options maxTreesArg w =
     exploreTree e packageName ver (rootContext options maxTreesArg) (w\<lparr>treeCount := 0\<rparr>)"
  by (simp add: generateAllPossibleTrees_def rootContext_def)

lemma root_yields:
  assumes "metadataView e w packageName = Some md"
  shows "yielding (generateAllPossibleTrees e packageName ver options maxTreesArg w)"
  using explore_starts(1)[of e packageName ver "rootContext options maxTreesArg" "w\<lparr>treeCount := 0\<rparr>"]
    assms
  by (simp add: generateAllPossibleTrees_root)

lemma root_leaf:
  assumes "metadataView e w packageName = Some md"
    and "map_of (versions md) ver = None \<or>
         (\<exists>vd. map_of (versions md) ver = Some vd \<and> getDependencies vd = []) \<or>
         (case maxTreesArg of None \<Rightarrow> 1000 | Some m \<Rightarrow> m) \<le> 0"
  shows "\<exists>w'. generateAllPossibleTrees e packageName ver options maxTreesArg w
           = Yield (createEmptyNode packageName ver) w' Done"
proof (cases rule: exploreTree_leaf_or_loop[of e packageName ver "rootContext options maxTreesArg"
          "w\<lparr>treeCount := 0\<rparr>"])
  case (leaf w')
  then show ?thesis by (auto simp: generateAllPossibleTrees_root)
next
  case (throw err w')
  with assms(1) show ?thesis by simp
next
  case (loop md' vd w1)
  with assms show ?thesis by (auto simp: rootContext_def)
qed

text \<open>
  C10. When the metadata of the root package is available (cached, or fetched with success),
  \<^verbatim>\<open>generateAllPossibleTrees\<close> answers the first \<^verbatim>\<open>next()\<close> with a tree, so that
  \<^verbatim>\<open>resolveAndHash\<close> returns a tree and its hash and never reaches its final \<^verbatim>\<open>throw\<close>; the
  generator yields the placeholder leaf alone when the version is unknown, when the version
  declares no dependencies, or when \<^verbatim>\<open>maxTrees\<close> is not positive.
\<close>

theorem root_fetch_ok_yields:
  assumes "metadataView e w packageName = Some md"
  shows "yielding (generateAllPossibleTrees e packageName ver options maxTreesArg w) \<and>
         (\<exists>t w'. resolveAndHash e createHash lc packageName ver findOptions w
            = (Inr (t, hashTree createHash lc t
                         (case optAlgorithm findOptions of None \<Rightarrow> Sha256 | Some a \<Rightarrow> a)), w')) \<and>
         (map_of (versions md) ver = None \<or>
          (\<exists>vd. map_of (versions md) ver = Some vd \<and> getDependencies vd = []) \<or>
          (case maxTreesArg of None \<Rightarrow> 1000 | Some m \<Rightarrow> m) \<le> 0 \<longrightarrow>
          drain (generateAllPossibleTrees e packageName ver options maxTreesArg w)
            = ([createEmptyNode packageName ver], None,
               snd (snd (drain (generateAllPossibleTrees e packageName ver options maxTreesArg w)))))"
proof -
  have one: "yielding (generateAllPossibleTrees e packageName ver options maxTreesArg w)"
    using assms by (rule root_yields)
  have "yielding (generateAllPossibleTrees e packageName ver (ResolverOptions.truncate findOptions)
                    (Some 1) w)"
    using assms by (rule root_yields)
  then obtain t w1 k where
    "generateAllPossibleTrees e packageName ver (ResolverOptions.truncate findOptions) (Some 1) w
       = Yield t w1 k"
    by (cases "generateAllPossibleTrees e packageName ver (ResolverOptions.truncate findOptions)
                 (Some 1) w") simp_all
  then have two: "\<exists>t w'. resolveAndHash e createHash lc packageName ver findOptions w
            = (Inr (t, hashTree createHash lc t
                         (case optAlgorithm findOptions of None \<Rightarrow> Sha256 | Some a \<Rightarrow> a)), w')"
    by (simp add: resolveAndHash_def)
  have three: "drain (generateAllPossibleTrees e packageName ver options maxTreesArg w)
            = ([createEmptyNode packageName ver], None,
               snd (snd (drain (generateAllPossibleTrees e packageName ver options maxTreesArg w))))"
    if "map_of (versions md) ver = None \<or>
          (\<exists>vd. map_of (versions md) ver = Some vd \<and> getDependencies vd = []) \<or>
          (case maxTreesArg of None \<Rightarrow> 1000 | Some m \<Rightarrow> m) \<le> 0"
    using root_leaf[OF assms that, of options] by auto
  from one two three show ?thesis by (intro conjI impI)
qed

theorem root_fetch_ok_yields_witness:
  "metadataView fixture emptyWorld ''A'' = Some fixtureMetadataA \<and>
   yielding (generateAllPossibleTrees fixture ''A'' ''1.0.0'' defaultOptions (Some 1) emptyWorld) \<and>
   (\<exists>t w'. resolveAndHash fixture toyDigest codeUnitCompare ''A'' ''1.0.0'' defaultFindOptions emptyWorld
      = (Inr (t, hashTree toyDigest codeUnitCompare t
                   (case optAlgorithm defaultFindOptions of None \<Rightarrow> Sha256 | Some a \<Rightarrow> a)), w'))"
  using root_fetch_ok_yields[OF fixture_view_A, of "''1.0.0''" defaultOptions "Some 1" toyDigest
      codeUnitCompare defaultFindOptions] fixture_view_A
  by (intro conjI) (elim conjE, assumption)+

section \<open>Unknown root versions\<close>

lemma serializeTree_leaf: "serializeTree lc (createEmptyNode nm ver) = nm @ ''@'' @ ver"
  by (simp add: serializeTree_def createEmptyNode_def serialize_node array_sort_def)

lemma greedy_unknown_version:
  assumes "metadataView e w packageName = Some md" and "map_of (versions md) ver = None"
    and "0 \<le> effectiveMaxDepth options"
  shows "fst (resolveDependencyTree e packageName ver options 0 {} w)
           = (if ver \<in> set objectPrototypeMembers
              then Inr (createEmptyNode packageName ver)
              else Inl (Error (''Version '' @ ver @ '' not found for package '' @ packageName)))"
proof -
  obtain r w1 where g: "getCachedMetadata e packageName w = (r, w1)"
    by (cases "getCachedMetadata e packageName w")
  from getCachedMetadata_cases(3)[OF g, of md] assms(1) have "r = Inr md" by simp
  with g assms(3) versionsGet_absent[OF assms(2)] show ?thesis
    by (subst resolveDependencyTree.simps)
       (simp add: effectiveMaxDepth_def resolveDeps.simps createEmptyNode_def)
qed

lemma unknown_version_leaf_fixture:
  "\<exists>w'. generateAllPossibleTrees fixture ''A'' ''2.0.0'' opts k emptyWorld
     = Yield (createEmptyNode ''A'' ''2.0.0'') w' Done"
  by (rule root_leaf[OF fixture_view_A]) (simp add: fixtureMetadataA_def)

text \<open>
  C5 (as stated). In the fixture A has no version 2.0.0; asked for A@2.0.0, the generator
  yields the placeholder leaf and ends without an error, \<^verbatim>\<open>resolveAndHash\<close> returns that
  leaf with its hash, and \<^verbatim>\<open>findTreeByHash\<close> finds it for that hash.
\<close>

theorem unknown_root_version_counterexample:
  "registry fixture ''A'' = Some fixtureMetadataA \<and>
   map_of (versions fixtureMetadataA) ''2.0.0'' = None \<and>
   fst (drain (generateAllPossibleTrees fixture ''A'' ''2.0.0'' defaultOptions (Some 10) emptyWorld))
     = [DependencyNode ''A'' ''2.0.0'' []] \<and>
   fst (snd (drain (generateAllPossibleTrees fixture ''A'' ''2.0.0'' defaultOptions (Some 10) emptyWorld)))
     = None \<and>
   fst (resolveAndHash fixture toyDigest codeUnitCompare ''A'' ''2.0.0'' defaultFindOptions emptyWorld)
     = Inr (DependencyNode ''A'' ''2.0.0'' [], ''sha256:A@2.0.0'') \<and>
   fst (findTreeByHash fixture toyDigest codeUnitCompare ''A'' ''2.0.0'' ''sha256:A@2.0.0''
          defaultFindOptions emptyWorld)
     = Inr (Some \<lparr>tree = DependencyNode ''A'' ''2.0.0'' [], hash = ''sha256:A@2.0.0'',
                   treesExplored = 1\<rparr>)"
proof -
  have reg: "registry fixture ''A'' = Some fixtureMetadataA"
    by (simp add: fixture_def fixtureRegistry_def)
  have ver: "map_of (versions fixtureMetadataA) ''2.0.0'' = None"
    by (simp add: fixtureMetadataA_def)
  have h: "hashTree toyDigest codeUnitCompare (createEmptyNode ''A'' ''2.0.0'') Sha256 = ''sha256:A@2.0.0''"
    by (simp add: hashTree_def serializeTree_leaf toyDigest_def)
  have gen: "fst (drain (generateAllPossibleTrees fixture ''A'' ''2.0.0'' defaultOptions (Some 10) emptyWorld))
     = [DependencyNode ''A'' ''2.0.0'' []]"
    "fst (snd (drain (generateAllPossibleTrees fixture ''A'' ''2.0.0'' defaultOptions (Some 10) emptyWorld)))
     = None"
    using unknown_version_leaf_fixture[of defaultOptions "Some 10"]
    by (auto simp: createEmptyNode_def)
  have rah: "fst (resolveAndHash fixture toyDigest codeUnitCompare ''A'' ''2.0.0'' defaultFindOptions emptyWorld)
     = Inr (DependencyNode ''A'' ''2.0.0'' [], ''sha256:A@2.0.0'')"
    using unknown_version_leaf_fixture[of "ResolverOptions.truncate defaultFindOptions" "Some 1"] h
    by (auto simp: resolveAndHash_def fixture_find_options createEmptyNode_def)
  have fth: "fst (findTreeByHash fixture toyDigest codeUnitCompare ''A'' ''2.0.0'' ''sha256:A@2.0.0''
          defaultFindOptions emptyWorld)
     = Inr (Some \<lparr>tree = DependencyNode ''A'' ''2.0.0'' [], hash = ''sha256:A@2.0.0'',
                   treesExplored = 1\<rparr>)"
    using unknown_version_leaf_fixture[of "ResolverOptions.truncate defaultFindOptions" "Some 1000"] h
    by (auto simp: findTreeByHash_def fixture_find_options createEmptyNode_def)
  from reg ver gen rah fth show ?thesis by (intro conjI)
qed

text \<open>
  C5 (amended). Let the metadata of the root package be available and let the requested version
  be none of the keys of its \<^verbatim>\<open>versions\<close>. Then \<^verbatim>\<open>generateAllPossibleTrees\<close> yields one tree, the
  placeholder leaf, and ends without an error; \<^verbatim>\<open>resolveAndHash\<close> returns that leaf and its
  hash; \<^verbatim>\<open>findTreeByHash\<close> returns the leaf when its hash is the target and \<^verbatim>\<open>null\<close>
  otherwise; and \<^verbatim>\<open>resolveDependencyTree\<close>, called at the root with \<^verbatim>\<open>maxDepth \<ge> 0\<close>, fails with
  the \<^verbatim>\<open>Error\<close> \<^verbatim>\<open>Version v not found for package p\<close>, provided the version string is not the
  name of a member of \<^verbatim>\<open>Object.prototype\<close> (\<^verbatim>\<open>constructor\<close>, \<^verbatim>\<open>toString\<close>, ..).
\<close>

theorem unknown_root_version:
  assumes "metadataView e w packageName = Some md" and "map_of (versions md) ver = None"
  shows "(0 \<le> effectiveMaxDepth options \<and> ver \<notin> set objectPrototypeMembers \<longrightarrow>
            fst (resolveDependencyTree e packageName ver options 0 {} w)
              = Inl (Error (''Version '' @ ver @ '' not found for package '' @ packageName))) \<and>
         fst (drain (generateAllPossibleTrees e packageName ver options maxTreesArg w))
           = [createEmptyNode packageName ver] \<and>
         fst (snd (drain (generateAllPossibleTrees e packageName ver options maxTreesArg w))) = None \<and>
         fst (resolveAndHash e createHash lc packageName ver findOptions w)
           = Inr (createEmptyNode packageName ver,
                  createHash (case optAlgorithm findOptions of None \<Rightarrow> Sha256 | Some a \<Rightarrow> a)
                    (packageName @ ''@'' @ ver)) \<and>
         fst (findTreeByHash e createHash lc packageName ver targetHash findOptions w)
           = (if createHash (case optAlgorithm findOptions of None \<Rightarrow> Sha256 | Some a \<Rightarrow> a)
                   (packageName @ ''@'' @ ver) = targetHash
              then Inr (Some \<lparr>tree = createEmptyNode packageName ver, hash = targetHash,
                               treesExplored = 1\<rparr>)
              else Inr None)"
proof -
  have leaf: "\<exists>w'. generateAllPossibleTrees e packageName ver opts k w
           = Yield (createEmptyNode packageName ver) w' Done" for opts k
    using assms by (intro root_leaf) auto
  have greedy: "0 \<le> effectiveMaxDepth options \<and> ver \<notin> set objectPrototypeMembers \<longrightarrow>
            fst (resolveDependencyTree e packageName ver options 0 {} w)
              = Inl (Error (''Version '' @ ver @ '' not found for package '' @ packageName))"
    using greedy_unknown_version[OF assms] by simp
  have gen: "fst (drain (generateAllPossibleTrees e packageName ver options maxTreesArg w))
           = [createEmptyNode packageName ver]"
     "fst (snd (drain (generateAllPossibleTrees e packageName ver options maxTreesArg w))) = None"
    using leaf[of options maxTreesArg] by auto
  have rah: "fst (resolveAndHash e createHash lc packageName ver findOptions w)
           = Inr (createEmptyNode packageName ver,
                  createHash (case optAlgorithm findOptions of None \<Rightarrow> Sha256 | Some a \<Rightarrow> a)
                    (packageName @ ''@'' @ ver))"
    using leaf[of "ResolverOptions.truncate findOptions" "Some 1"]
    by (auto simp: resolveAndHash_def hashTree_def serializeTree_leaf)
  have fth: "fst (findTreeByHash e createHash lc packageName ver targetHash findOptions w)
           = (if createHash (case optAlgorithm findOptions of None \<Rightarrow> Sha256 | Some a \<Rightarrow> a)
                   (packageName @ ''@'' @ ver) = targetHash
              then Inr (Some \<lparr>tree = createEmptyNode packageName ver, hash = targetHash,
                               treesExplored = 1\<rparr>)
              else Inr None)"
    using leaf[of "ResolverOptions.truncate findOptions"
        "Some (case optMaxTrees findOptions of None \<Rightarrow> 1000 | Some m \<Rightarrow> m)"]
    by (auto simp: findTreeByHash_def hashTree_def serializeTree_leaf)
  from greedy gen rah fth show ?thesis by (intro conjI)
qed

theorem unknown_root_version_witness:
  "metadataView fixture emptyWorld ''A'' = Some fixtureMetadataA \<and>
   map_of (versions fixtureMetadataA) ''2.0.0'' = None \<and>
   0 \<le> effectiveMaxDepth defaultOptions \<and>
   ''2.0.0'' \<notin> set objectPrototypeMembers \<and>
   fst (resolveDependencyTree fixture ''A'' ''2.0.0'' defaultOptions 0 {} emptyWorld)
     = Inl (Error ''Version 2.0.0 not found for package A'') \<and>
   fst (drain (generateAllPossibleTrees fixture ''A'' ''2.0.0'' defaultOptions (Some 10) emptyWorld))
     = [createEmptyNode ''A'' ''2.0.0'']"
proof -
  have v: "map_of (versions fixtureMetadataA) ''2.0.0'' = None"
    by (simp add: fixtureMetadataA_def)
  have d: "0 \<le> effectiveMaxDepth defaultOptions"
    by (simp add: effectiveMaxDepth_def defaultOptions_def)
  have m: "''2.0.0'' \<notin> set objectPrototypeMembers"
    by (simp add: objectPrototypeMembers_def)
  note th0 = unknown_root_version[OF fixture_view_A v, of defaultOptions "Some 10"]
  from th0 d m have "fst (resolveDependencyTree fixture ''A'' ''2.0.0'' defaultOptions 0 {} emptyWorld)
     = Inl (Error ''Version 2.0.0 not found for package A'')"
    by simp
  moreover from th0 have "fst (drain (generateAllPossibleTrees fixture ''A'' ''2.0.0'' defaultOptions (Some 10) emptyWorld))
     = [createEmptyNode ''A'' ''2.0.0'']"
    by blast
  ultimately show ?thesis using fixture_view_A v d m by (intro conjI)
qed

text \<open>
  A version string that names a member of \<^verbatim>\<open>Object.prototype\<close> is found by the read
  \<^verbatim>\<open>metadata.versions[version]\<close> although the registry knows no such version: the greedy
  resolver then returns the placeholder leaf instead of failing.
\<close>

lemma greedy_inherited_version:
  "fst (resolveDependencyTree fixture ''A'' ''constructor'' defaultOptions 0 {} emptyWorld)
     = Inr (DependencyNode ''A'' ''constructor'' [])"
proof -
  have v: "map_of (versions fixtureMetadataA) ''constructor'' = None"
    by (simp add: fixtureMetadataA_def)
  have d: "0 \<le> effectiveMaxDepth defaultOptions"
    by (simp add: effectiveMaxDepth_def defaultOptions_def)
  from greedy_unknown_version[OF fixture_view_A v d] show ?thesis
    by (simp add: objectPrototypeMembers_def createEmptyNode_def)
qed

section \<open>The metadata cache\<close>

lemma drain_final_inv:
  "yields_ok e b V C P g c \<Longrightarrow> cache_inv e V C (snd (snd (drain g)))"
proof (induction g arbitrary: c)
  case (Yield x w k)
  from Yield.prems have "yields_ok e b V C P (k w) (treeCount w)" by simp
  from Yield.IH[OF rangeI this] show ?case
    by (simp add: case_prod_unfold)
qed simp_all

lemma findTreeLoop_final_inv:
  "yields_ok e b V C P g c \<Longrightarrow>
   cache_inv e V C (snd (findTreeLoop createHash lc alg targetHash g n))"
proof (induction g arbitrary: c n)
  case (Yield x w k)
  from Yield.prems have "yields_ok e b V C P (k w) (treeCount w)" by simp
  from Yield.IH[OF rangeI this] Yield.prems show ?case
    by simp
qed simp_all

lemma root_yields_ok:
  "yields_ok e False (metadataView e w) (metadataCache w)
     (tree_ok e (metadataView e w) top3
        (depthBudget (maxDepth (rootContext options maxTreesArg)) 0 + 1) packageName ver)
     (generateAllPossibleTrees e packageName ver options maxTreesArg w) 0"
  using explore_ok(1)[where e = e and w = "w\<lparr>treeCount := 0\<rparr>" and V = "metadataView e w"
      and C = "metadataCache w" and ctx = "rootContext options maxTreesArg"
      and pkgName = packageName and pkgVersion = ver]
  by (simp add: generateAllPossibleTrees_root) (simp add: rootContext_def)

lemma cache_inv_cache: "cache_inv e V C w \<Longrightarrow> map_of C \<subseteq>\<^sub>m map_of (metadataCache w)"
  by (simp add: cache_inv_def)

lemma resolveAndHash_final_inv:
  "cache_inv e (metadataView e w) (metadataCache w)
     (snd (resolveAndHash e createHash lc packageName ver findOptions w))"
  using root_yields_ok[of e w "ResolverOptions.truncate findOptions" "Some 1" packageName ver]
  by (cases "generateAllPossibleTrees e packageName ver (ResolverOptions.truncate findOptions)
               (Some 1) w")
     (simp_all add: resolveAndHash_def)

text \<open>
  C6 (as stated). After one call of \<^verbatim>\<open>generateAllPossibleTrees\<close> on the fixture, which sends
  the requests for A and B, a second call sends none, also when the registry has changed in
  between (B has two more versions): it is answered from the cache of the first call.
\<close>

theorem metadata_cache_per_call_counterexample:
  "fetched worldAfterFirstCall = [''A'', ''B''] \<and>
   fetched (snd (snd (drain (generateAllPossibleTrees wideFixture ''A'' ''1.0.0'' defaultOptions
                               (Some 10) worldAfterFirstCall)))) = [''A'', ''B''] \<and>
   fst (drain (generateAllPossibleTrees wideFixture ''A'' ''1.0.0'' defaultOptions (Some 10)
                 worldAfterFirstCall))
     = [treeWithB ''1.1.0'', treeWithB ''1.0.0''] \<and>
   fst (drain (generateAllPossibleTrees wideFixture ''A'' ''1.0.0'' defaultOptions (Some 10)
                 emptyWorld))
     = [treeWithB ''1.3.0'', treeWithB ''1.2.0'', treeWithB ''1.1.0'']"
  by code_simp

text \<open>
  C6 (amended). The metadata cache is one map for the whole module, and no top-level call
  empties it: \<^verbatim>\<open>getCachedMetadata\<close> answers a cached name from the cache and sends no
  request, whichever call stored the entry; for a name that is not cached it sends one
  request and stores a successful answer; and every entry that is cached when
  \<^verbatim>\<open>generateAllPossibleTrees\<close> (read to its end), \<^verbatim>\<open>findTreeByHash\<close>, \<^verbatim>\<open>resolveAndHash\<close> or
  \<^verbatim>\<open>resolveDependencyTree\<close> starts is still cached, unchanged, when it ends.
\<close>

theorem metadata_cache_shared:
  "(map_of (metadataCache w) nm = Some md \<longrightarrow> getCachedMetadata e nm w = (Inr md, w)) \<and>
   (map_of (metadataCache w) nm = None \<longrightarrow>
      fetched (snd (getCachedMetadata e nm w)) = fetched w @ [nm] \<and>
      (registry e nm = Some md \<longrightarrow>
         fst (getCachedMetadata e nm w) = Inr md \<and>
         map_of (metadataCache (snd (getCachedMetadata e nm w))) nm = Some md)) \<and>
   map_of (metadataCache w) \<subseteq>\<^sub>m
     map_of (metadataCache (snd (snd (drain
       (generateAllPossibleTrees e packageName ver options maxTreesArg w))))) \<and>
   map_of (metadataCache w) \<subseteq>\<^sub>m
     map_of (metadataCache (snd (findTreeByHash e createHash lc packageName ver targetHash
                                   findOptions w))) \<and>
   map_of (metadataCache w) \<subseteq>\<^sub>m
     map_of (metadataCache (snd (resolveAndHash e createHash lc packageName ver findOptions w))) \<and>
   map_of (metadataCache w) \<subseteq>\<^sub>m
     map_of (metadataCache (snd (resolveDependencyTree e packageName ver options dpth rslv w)))"
proof -
  have hit: "map_of (metadataCache w) nm = Some md \<longrightarrow> getCachedMetadata e nm w = (Inr md, w)"
    by (simp add: getCachedMetadata_def)
  have miss: "map_of (metadataCache w) nm = None \<longrightarrow>
      fetched (snd (getCachedMetadata e nm w)) = fetched w @ [nm] \<and>
      (registry e nm = Some md \<longrightarrow>
         fst (getCachedMetadata e nm w) = Inr md \<and>
         map_of (metadataCache (snd (getCachedMetadata e nm w))) nm = Some md)"
    by (simp add: getCachedMetadata_def fetchPackageMetadata_def map_of_map_set
             split: option.splits)
  have gen: "map_of (metadataCache w) \<subseteq>\<^sub>m
     map_of (metadataCache (snd (snd (drain
       (generateAllPossibleTrees e packageName ver options maxTreesArg w)))))"
    by (rule cache_inv_cache[OF drain_final_inv[OF root_yields_ok]])
  have fth: "map_of (metadataCache w) \<subseteq>\<^sub>m
     map_of (metadataCache (snd (findTreeByHash e createHash lc packageName ver targetHash
                                   findOptions w)))"
    unfolding findTreeByHash_def
    by (rule cache_inv_cache[OF findTreeLoop_final_inv[OF root_yields_ok]])
  have rah: "map_of (metadataCache w) \<subseteq>\<^sub>m
     map_of (metadataCache (snd (resolveAndHash e createHash lc packageName ver findOptions w)))"
    by (rule cache_inv_cache[OF resolveAndHash_final_inv])
  have greedy: "map_of (metadataCache w) \<subseteq>\<^sub>m
     map_of (metadataCache (snd (resolveDependencyTree e packageName ver options dpth rslv w)))"
    using resolve_ok(1)[where e = e and w = w and V = "metadataView e w" and C = "metadataCache w",
        OF cache_inv_self, of packageName ver options dpth rslv]
    by (blast intro: cache_inv_cache)
  from hit miss gen fth rah greedy show ?thesis by (intro conjI)
qed

lemma worldAfterFirstCall_cache:
  "map_of (metadataCache worldAfterFirstCall) ''B'' = Some fixtureMetadataB"
  by code_simp

theorem metadata_cache_shared_witness:
  "map_of (metadataCache worldAfterFirstCall) ''B'' = Some fixtureMetadataB \<and>
   getCachedMetadata wideFixture ''B'' worldAfterFirstCall = (Inr fixtureMetadataB, worldAfterFirstCall) \<and>
   map_of (metadataCache emptyWorld) ''B'' = None \<and>
   registry fixture ''B'' = Some fixtureMetadataB \<and>
   fetched (snd (getCachedMetadata fixture ''B'' emptyWorld)) = fetched emptyWorld @ [''B''] \<and>
   map_of (metadataCache (snd (getCachedMetadata fixture ''B'' emptyWorld))) ''B''
     = Some fixtureMetadataB"
proof -
  have miss: "map_of (metadataCache emptyWorld) ''B'' = None"
    by (simp add: emptyWorld_def)
  have reg: "registry fixture ''B'' = Some fixtureMetadataB"
    by (simp add: fixture_def fixtureRegistry_def)
  note a = metadata_cache_shared[of worldAfterFirstCall "''B''" fixtureMetadataB wideFixture
      "''A''" "''1.0.0''" defaultOptions "Some 10" toyDigest codeUnitCompare "''x''"
      defaultFindOptions 0 "{}", THEN conjunct1, THEN mp, OF worldAfterFirstCall_cache]
  note b = metadata_cache_shared[of emptyWorld "''B''" fixtureMetadataB fixture
      "''A''" "''1.0.0''" defaultOptions "Some 10" toyDigest codeUnitCompare "''x''"
      defaultFindOptions 0 "{}", THEN conjunct2, THEN conjunct1, THEN mp, OF miss]
  from b reg have "fetched (snd (getCachedMetadata fixture ''B'' emptyWorld)) = fetched emptyWorld @ [''B'']"
    and "map_of (metadataCache (snd (getCachedMetadata fixture ''B'' emptyWorld))) ''B''
     = Some fixtureMetadataB"
    by blast+
  with worldAfterFirstCall_cache a miss reg show ?thesis by (intro conjI)
qed

section \<open>Cycles and depth\<close>

lemma cyclic_drain_trees:
  "fst (drain (generateAllPossibleTrees cyclicFixture ''A'' ''1.0.0'' defaultOptions (Some 10) emptyWorld))
     = [cyclicTree]"
  "fst (snd (drain (generateAllPossibleTrees cyclicFixture ''A'' ''1.0.0'' defaultOptions (Some 10)
                      emptyWorld))) = None"
  by code_simp+

lemma height_cyclicTree: "height cyclicTree = 3"
  by (simp add: cyclicTree_def height.simps)

text \<open>
  C7. \<^verbatim>\<open>resolveDependencyTree\<close> and the generators are defined by recursion on the number of
  levels left before \<^verbatim>\<open>depth > maxDepth\<close>, so they return on every metadata graph. Called for a
  pair that is open on the current path, or deeper than \<^verbatim>\<open>maxDepth\<close>, both return the
  placeholder leaf without touching the registry; hence no tree they produce has more than
  \<^verbatim>\<open>maxDepth + 2 - depth\<close> levels. Where A depends on B and B on A, both produce the one tree
  A, B, A, whose last node is the placeholder leaf.
\<close>

theorem resolution_depth_bounded:
  "(int dpth > effectiveMaxDepth options \<or> resolutionKey packageName ver \<in> rslv \<longrightarrow>
      resolveDependencyTree e packageName ver options dpth rslv w
        = (Inr (createEmptyNode packageName ver), w)) \<and>
   (int (depth ctx) > maxDepth ctx \<or> resolutionKey packageName ver \<in> resolving ctx \<longrightarrow>
      exploreTree e packageName ver ctx w = Yield (createEmptyNode packageName ver) w Done) \<and>
   (\<forall>t. fst (resolveDependencyTree e packageName ver options dpth rslv w) = Inr t \<longrightarrow>
      height t \<le> depthBudget (effectiveMaxDepth options) dpth + 1) \<and>
   (\<forall>t \<in> set (fst (drain (exploreTree e packageName ver ctx w))).
      height t \<le> depthBudget (maxDepth ctx) (depth ctx) + 1) \<and>
   fst (resolveDependencyTree cyclicFixture ''A'' ''1.0.0'' defaultOptions 0 {} emptyWorld)
     = Inr cyclicTree \<and>
   fst (drain (generateAllPossibleTrees cyclicFixture ''A'' ''1.0.0'' defaultOptions (Some 10) emptyWorld))
     = [cyclicTree] \<and>
   fst (snd (drain (generateAllPossibleTrees cyclicFixture ''A'' ''1.0.0'' defaultOptions (Some 10)
                      emptyWorld))) = None"
proof -
  have g1: "int dpth > effectiveMaxDepth options \<or> resolutionKey packageName ver \<in> rslv \<longrightarrow>
      resolveDependencyTree e packageName ver options dpth rslv w
        = (Inr (createEmptyNode packageName ver), w)"
    by (subst resolveDependencyTree.simps) (simp add: effectiveMaxDepth_def)
  have g2: "int (depth ctx) > maxDepth ctx \<or> resolutionKey packageName ver \<in> resolving ctx \<longrightarrow>
      exploreTree e packageName ver ctx w = Yield (createEmptyNode packageName ver) w Done"
    by (subst exploreTree.simps) simp
  have h1: "\<forall>t. fst (resolveDependencyTree e packageName ver options dpth rslv w) = Inr t \<longrightarrow>
      height t \<le> depthBudget (effectiveMaxDepth options) dpth + 1"
    using resolve_ok(1)[where e = e and w = w and V = "metadataView e w" and C = "metadataCache w",
        OF cache_inv_self, of packageName ver options dpth rslv]
    by (simp add: tree_ok_def)
  have "yields_ok e (0 < depth ctx) (metadataView e w) (metadataCache w)
          (tree_ok e (metadataView e w) top3 (depthBudget (maxDepth ctx) (depth ctx) + 1) packageName ver)
          (exploreTree e packageName ver ctx w) (treeCount w)"
    by (rule explore_ok(1)) simp
  from drain_yields[OF this]
  have h2: "\<forall>t \<in> set (fst (drain (exploreTree e packageName ver ctx w))).
      height t \<le> depthBudget (maxDepth ctx) (depth ctx) + 1"
    by (simp add: tree_ok_def)
  from g1 g2 h1 h2 cyclic_greedy cyclic_drain_trees show ?thesis by (intro conjI)
qed

theorem resolution_depth_bounded_witness:
  "resolutionKey ''A'' ''1.0.0'' \<in> {resolutionKey ''A'' ''1.0.0'', resolutionKey ''B'' ''1.0.0''} \<and>
   resolveDependencyTree cyclicFixture ''A'' ''1.0.0'' defaultOptions 2
       {resolutionKey ''A'' ''1.0.0'', resolutionKey ''B'' ''1.0.0''} emptyWorld
     = (Inr (createEmptyNode ''A'' ''1.0.0''), emptyWorld) \<and>
   fst (resolveDependencyTree cyclicFixture ''A'' ''1.0.0'' defaultOptions 0 {} emptyWorld)
     = Inr cyclicTree \<and>
   height cyclicTree \<le> depthBudget (effectiveMaxDepth defaultOptions) 0 + 1"
proof -
  have mem: "resolutionKey ''A'' ''1.0.0'' \<in> {resolutionKey ''A'' ''1.0.0'', resolutionKey ''B'' ''1.0.0''}"
    by simp
  note a = resolution_depth_bounded[where dpth = 2 and options = defaultOptions
      and packageName = "''A''" and ver = "''1.0.0''"
      and rslv = "{resolutionKey ''A'' ''1.0.0'', resolutionKey ''B'' ''1.0.0''}"
      and e = cyclicFixture and w = emptyWorld and ctx = "rootContext defaultOptions None",
      THEN conjunct1, THEN mp, OF disjI2, OF mem]
  note b = resolution_depth_bounded[where dpth = 0 and options = defaultOptions
      and packageName = "''A''" and ver = "''1.0.0''" and rslv = "{}"
      and e = cyclicFixture and w = emptyWorld and ctx = "rootContext defaultOptions None"]
  from b have c: "fst (resolveDependencyTree cyclicFixture ''A'' ''1.0.0'' defaultOptions 0 {} emptyWorld)
     = Inr cyclicTree" by blast
  with b have "height cyclicTree \<le> depthBudget (effectiveMaxDepth defaultOptions) 0 + 1"
    by blast
  with mem a c show ?thesis by (intro conjI)
qed

end
